theory Spec2Isabelle
  imports Complex_Main "HOL-Library.Log_Nat"
begin

section \<open>The circuit breaker of circuit\_watch.py\<close>

text \<open>
  A shallow embedding of \<^verbatim>\<open>src/circuit_watch.py\<close>. Conventions:
  \<^item> an instant (\<^verbatim>\<open>datetime\<close>) is an integer number of microseconds, the resolution of
    \<^verbatim>\<open>datetime\<close>; the difference of two instants is a \<^verbatim>\<open>timedelta\<close>;
  \<^item> a Python \<^verbatim>\<open>float\<close> (failure rate, durations, \<^verbatim>\<open>time.time()\<close>) is the rational
    number it denotes. A comparison of a float with a float or an integer is exact in
    Python. The true division \<^verbatim>\<open>fail_counter / total_calls\<close> is rounded to the nearest
    double, as Python does. The subtraction \<^verbatim>\<open>end_time - start_time\<close> is kept exact: the
    difference of two doubles \<open>x \<le> y \<le> 2x\<close> is a double, and the readings of
    \<^verbatim>\<open>time.time()\<close> of one invocation are that close for any invocation shorter than the
    time since 1970;
  \<^item> an optional keyword argument or attribute is an \<open>option\<close>, \<open>None\<close> being Python's
    \<^verbatim>\<open>None\<close>;
  \<^item> a method that mutates the breaker takes the breaker and returns the updated one;
    a method that may raise returns the exception (if any) next to the breaker, since
    the mutations made before a \<^verbatim>\<open>raise\<close> persist;
  \<^item> every reading of \<^verbatim>\<open>datetime.utcnow()\<close> and \<^verbatim>\<open>time.time()\<close> is an argument;
  \<^item> a listener is an external object, known by a number; it implements the three
    callbacks the breaker invokes, returns normally and does not touch the breaker. The
    callbacks made are appended to the trace \<open>notified\<close>.
\<close>

subsection \<open>Data model\<close>

datatype CircuitState = OPEN_STATE | CLOSED_STATE | HALF_OPEN_STATE

datatype SlidingWindowType = COUNT_BASED | TIME_BASED

datatype pyexc =
    CircuitOpenException
  | CircuitExecutionTimeBreachedException
  | TypeError
  | IndexError
  | ZeroDivisionError
  | WorkException string

type_synonym instant = int

record CallDetail =
  status :: bool
  timestamp :: instant

record CircuitStorage =
  sliding_window_type :: SlidingWindowType
  count_based_window_size :: int
  time_based_window_size :: int
  failure_rate :: rat
  slow_call_duration :: "rat option"
  open_state_duration :: rat
  half_open_state_calls_threshold :: int
  half_open_state_duration :: rat
  total_calls :: "CallDetail list"
  window_start_time :: "instant option"
  half_open_state_total_calls :: int
  circuit_state :: CircuitState

datatype event =
    Success_cb nat
  | Failure_cb nat pyexc
  | State_change_cb nat CircuitState CircuitState

record CircuitBreaker =
  last_failure_time :: "instant option"
  listeners :: "nat list"
  storage_state :: CircuitStorage
  notified :: "event list"

subsection \<open>Constants and construction\<close>

text \<open>
  The source takes the \<^verbatim>\<open>value\<close> of the enumeration member (a string) as the default
  window type; no method reads the window type, and the model keeps the member.
\<close>

definition DEFAULT_SLIDING_WINDOW_TYPE :: SlidingWindowType where
  "DEFAULT_SLIDING_WINDOW_TYPE = COUNT_BASED"

definition DEFAULT_COUNT_BASED_WINDOW_SIZE :: int where
  "DEFAULT_COUNT_BASED_WINDOW_SIZE = 2"

definition DEFAULT_TIME_BASED_WINDOW_SIZE :: int where
  "DEFAULT_TIME_BASED_WINDOW_SIZE = 60"

definition DEFAULT_FAILURE_RATE :: rat where
  "DEFAULT_FAILURE_RATE = 1"

definition DEFAULT_OPEN_STATE_DURATION :: rat where
  "DEFAULT_OPEN_STATE_DURATION = 10"

definition DEFAULT_HALF_OPEN_STATE_CALLS :: int where
  "DEFAULT_HALF_OPEN_STATE_CALLS = 1"

definition DEFAULT_HALF_OPEN_STATE_DURATION :: rat where
  "DEFAULT_HALF_OPEN_STATE_DURATION = 0"

text \<open>
  Python's \<^verbatim>\<open>x or d\<close> on a number: \<^verbatim>\<open>None\<close> and zero are falsy and give \<open>d\<close>.
\<close>

definition py_or :: "'a::zero option \<Rightarrow> 'a \<Rightarrow> 'a" where
  "py_or x d = (case x of None \<Rightarrow> d | Some v \<Rightarrow> if v = 0 then d else v)"

text \<open>The members of an \<^verbatim>\<open>Enum\<close> are all truthy.\<close>

definition py_or_enum :: "'a option \<Rightarrow> 'a \<Rightarrow> 'a" where
  "py_or_enum x d = (case x of None \<Rightarrow> d | Some v \<Rightarrow> v)"

definition CircuitStorage_init ::
  "SlidingWindowType option \<Rightarrow> int option \<Rightarrow> int option \<Rightarrow> rat option \<Rightarrow> rat option \<Rightarrow>
   int option \<Rightarrow> rat option \<Rightarrow> rat option \<Rightarrow> CircuitStorage" where
  "CircuitStorage_init swt cbws tbws fr scd hosct hosd osd =
     \<lparr> sliding_window_type = py_or_enum swt DEFAULT_SLIDING_WINDOW_TYPE,
       count_based_window_size = py_or cbws DEFAULT_COUNT_BASED_WINDOW_SIZE,
       time_based_window_size = py_or tbws DEFAULT_TIME_BASED_WINDOW_SIZE,
       failure_rate = py_or fr DEFAULT_FAILURE_RATE,
       slow_call_duration = scd,
       open_state_duration = py_or osd DEFAULT_OPEN_STATE_DURATION,
       half_open_state_calls_threshold = py_or hosct DEFAULT_HALF_OPEN_STATE_CALLS,
       half_open_state_duration = py_or hosd DEFAULT_HALF_OPEN_STATE_DURATION,
       total_calls = [],
       window_start_time = None,
       half_open_state_total_calls = 0,
       circuit_state = CLOSED_STATE \<rparr>"

definition CircuitBreaker_init ::
  "SlidingWindowType option \<Rightarrow> int option \<Rightarrow> int option \<Rightarrow> rat option \<Rightarrow> rat option \<Rightarrow>
   int option \<Rightarrow> rat option \<Rightarrow> rat option \<Rightarrow> nat list \<Rightarrow> CircuitBreaker" where
  "CircuitBreaker_init swt cbws tbws fr scd hosct hosd osd ls =
     \<lparr> last_failure_time = None,
       listeners = ls,
       storage_state = CircuitStorage_init swt cbws tbws fr scd hosct hosd osd,
       notified = [] \<rparr>"

subsection \<open>Methods of CircuitBreaker\<close>

definition reset_calls :: "CircuitBreaker \<Rightarrow> CircuitBreaker" where
  "reset_calls cb = cb\<lparr>storage_state := (storage_state cb)\<lparr>total_calls := []\<rparr>\<rparr>"

definition set_circuit_breaker_state :: "CircuitState \<Rightarrow> CircuitBreaker \<Rightarrow> CircuitBreaker" where
  "set_circuit_breaker_state state cb =
     (let prev_state = circuit_state (storage_state cb);
          cb1 = cb\<lparr>storage_state := (storage_state cb)\<lparr>circuit_state := state\<rparr>\<rparr>
      in cb1\<lparr>notified := notified cb1 @
                 map (\<lambda>listener. State_change_cb listener prev_state state) (listeners cb1)\<rparr>)"

definition update_last_failure_time :: "instant \<Rightarrow> CircuitBreaker \<Rightarrow> CircuitBreaker" where
  "update_last_failure_time utcnow cb = cb\<lparr>last_failure_time := Some utcnow\<rparr>"

definition update_circuit_state :: "CircuitState \<Rightarrow> CircuitBreaker \<Rightarrow> CircuitBreaker" where
  "update_circuit_state updated_circuit_state cb =
     cb\<lparr>storage_state := (storage_state cb)\<lparr>circuit_state := updated_circuit_state\<rparr>\<rparr>"

text \<open>
  The failure counting loop of \<^verbatim>\<open>check_if_max_fails_reached\<close>:
  \<^verbatim>\<open>fail_counter += 0 if call.status else 1\<close>.
\<close>

fun count_fails :: "CallDetail list \<Rightarrow> int \<Rightarrow> int" where
  "count_fails [] fail_counter = fail_counter"
| "count_fails (call # calls) fail_counter =
     count_fails calls (fail_counter + (if status call then 0 else 1))"

text \<open>
  Python's true division of two integers gives the double nearest to the exact quotient,
  ties going to the even significand. A double has a significand of 53 bits: a number
  \<open>q\<close> with \<open>2 ^ e \<le> |q| < 2 ^ (e + 1)\<close> is rounded to a multiple of \<open>2 ^ (e - 52)\<close>, and
  below \<open>2 ^ (- 1022)\<close> (the subnormal numbers) to a multiple of \<open>2 ^ (- 1074)\<close>. A
  quotient of \<open>2 ^ 1024\<close> or more raises \<^verbatim>\<open>OverflowError\<close> in Python; the one division
  of the source has a quotient between 0 and 1, the failures being counted among the
  calls.
\<close>

definition round_half_even :: "rat \<Rightarrow> int" where
  "round_half_even x =
     (let f = \<lfloor>x\<rfloor>; d = x - of_int f
      in if d < 1 / 2 then f
         else if d > 1 / 2 then f + 1
         else if even f then f else f + 1)"

text \<open>The exponent \<open>e\<close> with \<open>2\<^sup>e \<le> q < 2\<^sup>e\<^sup>+\<^sup>1\<close>, for a positive \<open>q\<close>.\<close>

definition floor_log2 :: "rat \<Rightarrow> int" where
  "floor_log2 q =
     (let e0 = bitlen (fst (quotient_of q)) - bitlen (snd (quotient_of q))
      in if 2 powi e0 \<le> q then e0 else e0 - 1)"

definition double_round :: "rat \<Rightarrow> rat" where
  "double_round q =
     (if q = 0 then 0
      else let e = max (floor_log2 \<bar>q\<bar>) (- 1022);
               ulp = 2 powi (e - 52)
           in of_int (round_half_even (q / ulp)) * ulp)"

definition py_truediv :: "int \<Rightarrow> int \<Rightarrow> rat" where
  "py_truediv a b = double_round (of_int a / of_int b)"

text \<open>
  The true division \<^verbatim>\<open>fail_counter / total_calls\<close> raises \<^verbatim>\<open>ZeroDivisionError\<close> on an
  empty window, which is reached only when the window size is not positive.
\<close>

definition check_if_max_fails_reached :: "CircuitBreaker \<Rightarrow> pyexc + bool" where
  "check_if_max_fails_reached cb =
     (let total = int (length (total_calls (storage_state cb)));
          max_fails_reached = (total \<ge> count_based_window_size (storage_state cb))
      in if max_fails_reached then
           (let fail_counter = count_fails (total_calls (storage_state cb)) 0
            in if total = 0 then Inl ZeroDivisionError
               else Inr (py_truediv fail_counter total \<ge> failure_rate (storage_state cb)))
         else Inr max_fails_reached)"

text \<open>
  The attribute \<^verbatim>\<open>seconds\<close> of a normalised \<^verbatim>\<open>timedelta\<close> of the given number of
  microseconds: the days are split off and the microseconds dropped, so it lies in
  \<open>0..86399\<close>.
\<close>

definition timedelta_seconds :: "int \<Rightarrow> int" where
  "timedelta_seconds us = (us div 1000000) mod 86400"

text \<open>
  Subtracting \<^verbatim>\<open>None\<close> from a \<^verbatim>\<open>datetime\<close> raises \<^verbatim>\<open>TypeError\<close>.
\<close>

definition check_if_open_state_duration_elapsed :: "instant \<Rightarrow> CircuitBreaker \<Rightarrow> pyexc + bool" where
  "check_if_open_state_duration_elapsed utcnow cb =
     (case last_failure_time cb of
        None \<Rightarrow> Inl TypeError
      | Some t \<Rightarrow> Inr (of_int (timedelta_seconds (utcnow - t))
                        \<ge> open_state_duration (storage_state cb)))"

text \<open>
  The loop of \<^verbatim>\<open>update_total_calls_details\<close> on the deque: while it is longer than the
  window size, \<^verbatim>\<open>popleft\<close>, which raises \<^verbatim>\<open>IndexError\<close> on an empty deque.
\<close>

fun popleft_while :: "int \<Rightarrow> CallDetail list \<Rightarrow> pyexc option \<times> CallDetail list" where
  "popleft_while w [] = (if 0 > w then (Some IndexError, []) else (None, []))"
| "popleft_while w (c # cs) =
     (if int (length (c # cs)) > w then popleft_while w cs else (None, c # cs))"

definition update_total_calls_details :: "CircuitBreaker \<Rightarrow> pyexc option \<times> CircuitBreaker" where
  "update_total_calls_details cb =
     (case popleft_while (count_based_window_size (storage_state cb))
             (total_calls (storage_state cb)) of
        (r, calls) \<Rightarrow> (r, cb\<lparr>storage_state := (storage_state cb)\<lparr>total_calls := calls\<rparr>\<rparr>))"

definition add_call_detail :: "instant \<Rightarrow> bool \<Rightarrow> CircuitBreaker \<Rightarrow> pyexc option \<times> CircuitBreaker" where
  "add_call_detail utcnow st cb =
     update_total_calls_details
       (cb\<lparr>storage_state := (storage_state cb)
             \<lparr>total_calls := total_calls (storage_state cb)
                 @ [\<lparr>status = st, timestamp = utcnow\<rparr>]\<rparr>\<rparr>)"

definition check_if_execution_time_breached :: "rat \<Rightarrow> rat \<Rightarrow> CircuitBreaker \<Rightarrow> pyexc option" where
  "check_if_execution_time_breached start_time end_time cb =
     (case slow_call_duration (storage_state cb) of
        None \<Rightarrow> None
      | Some d \<Rightarrow> if end_time - start_time \<ge> d
                  then Some CircuitExecutionTimeBreachedException else None)"

definition increment_half_open_state_success_calls :: "CircuitBreaker \<Rightarrow> CircuitBreaker" where
  "increment_half_open_state_success_calls cb =
     cb\<lparr>storage_state := (storage_state cb)
          \<lparr>half_open_state_total_calls := half_open_state_total_calls (storage_state cb) + 1\<rparr>\<rparr>"

definition reset_half_open_state_calls_counter :: "CircuitBreaker \<Rightarrow> CircuitBreaker" where
  "reset_half_open_state_calls_counter cb =
     cb\<lparr>storage_state := (storage_state cb)\<lparr>half_open_state_total_calls := 0\<rparr>\<rparr>"

definition check_half_open_call_success :: "CircuitBreaker \<Rightarrow> bool" where
  "check_half_open_call_success cb =
     (half_open_state_total_calls (storage_state cb)
        \<ge> half_open_state_calls_threshold (storage_state cb))"

definition circuit_close :: "CircuitBreaker \<Rightarrow> CircuitBreaker" where
  "circuit_close cb = cb\<lparr>storage_state := (storage_state cb)\<lparr>circuit_state := CLOSED_STATE\<rparr>\<rparr>"

definition circuit_open :: "CircuitBreaker \<Rightarrow> CircuitBreaker" where
  "circuit_open cb = cb\<lparr>storage_state := (storage_state cb)\<lparr>circuit_state := OPEN_STATE\<rparr>\<rparr>"

definition circuit_half_open :: "CircuitBreaker \<Rightarrow> CircuitBreaker" where
  "circuit_half_open cb =
     cb\<lparr>storage_state := (storage_state cb)\<lparr>circuit_state := HALF_OPEN_STATE\<rparr>\<rparr>"

subsection \<open>The state handlers\<close>

definition CircuitBreakerState_on_success :: "instant \<Rightarrow> CircuitBreaker \<Rightarrow> pyexc option \<times> CircuitBreaker" where
  "CircuitBreakerState_on_success utcnow cb =
     (case add_call_detail utcnow True cb of
        (Some e, cb1) \<Rightarrow> (Some e, cb1)
      | (None, cb1) \<Rightarrow>
          (None, cb1\<lparr>notified := notified cb1 @ map Success_cb (listeners cb1)\<rparr>))"

definition CircuitBreakerState_on_failure :: "pyexc \<Rightarrow> CircuitBreaker \<Rightarrow> CircuitBreaker" where
  "CircuitBreakerState_on_failure exc cb =
     cb\<lparr>notified := notified cb @ map (\<lambda>listener. Failure_cb listener exc) (listeners cb)\<rparr>"

definition CircuitCloseState_on_failure ::
  "instant \<Rightarrow> instant \<Rightarrow> pyexc \<Rightarrow> CircuitBreaker \<Rightarrow> pyexc option \<times> CircuitBreaker" where
  "CircuitCloseState_on_failure utcnow_detail utcnow_failure exc cb =
     (case add_call_detail utcnow_detail False cb of
        (Some e, cb1) \<Rightarrow> (Some e, cb1)
      | (None, cb1) \<Rightarrow>
          (let cb2 = update_last_failure_time utcnow_failure cb1
           in case check_if_max_fails_reached cb2 of
                Inl e \<Rightarrow> (Some e, cb2)
              | Inr reached \<Rightarrow>
                  (None, CircuitBreakerState_on_failure exc
                           (if reached then set_circuit_breaker_state OPEN_STATE cb2 else cb2))))"

definition CircuitOpenState_on_failure :: "pyexc \<Rightarrow> CircuitBreaker \<Rightarrow> CircuitBreaker" where
  "CircuitOpenState_on_failure exc cb = cb"

definition CircuitOpenState_before_call :: "instant \<Rightarrow> CircuitBreaker \<Rightarrow> pyexc option \<times> CircuitBreaker" where
  "CircuitOpenState_before_call utcnow cb =
     (case check_if_open_state_duration_elapsed utcnow cb of
        Inl e \<Rightarrow> (Some e, cb)
      | Inr elapsed \<Rightarrow>
          if elapsed then (None, set_circuit_breaker_state HALF_OPEN_STATE cb)
          else (Some CircuitOpenException, cb))"

definition CircuitHalfOpenState_on_success :: "CircuitBreaker \<Rightarrow> CircuitBreaker" where
  "CircuitHalfOpenState_on_success cb =
     (let cb1 = increment_half_open_state_success_calls cb
      in if check_half_open_call_success cb1
         then reset_half_open_state_calls_counter
                (reset_calls (set_circuit_breaker_state CLOSED_STATE cb1))
         else cb1)"

definition CircuitHalfOpenState_on_failure :: "instant \<Rightarrow> pyexc \<Rightarrow> CircuitBreaker \<Rightarrow> CircuitBreaker" where
  "CircuitHalfOpenState_on_failure utcnow exc cb =
     reset_half_open_state_calls_counter
       (update_last_failure_time utcnow (set_circuit_breaker_state OPEN_STATE cb))"

subsection \<open>Dispatch on the current state, and the wrapper\<close>

definition handle_before_call :: "instant \<Rightarrow> CircuitBreaker \<Rightarrow> pyexc option \<times> CircuitBreaker" where
  "handle_before_call utcnow cb =
     (case circuit_state (storage_state cb) of
        OPEN_STATE \<Rightarrow> CircuitOpenState_before_call utcnow cb
      | CLOSED_STATE \<Rightarrow> (None, cb)
      | HALF_OPEN_STATE \<Rightarrow> (None, cb))"

definition handle_success :: "instant \<Rightarrow> CircuitBreaker \<Rightarrow> pyexc option \<times> CircuitBreaker" where
  "handle_success utcnow cb =
     (case circuit_state (storage_state cb) of
        OPEN_STATE \<Rightarrow> CircuitBreakerState_on_success utcnow cb
      | CLOSED_STATE \<Rightarrow> CircuitBreakerState_on_success utcnow cb
      | HALF_OPEN_STATE \<Rightarrow> (None, CircuitHalfOpenState_on_success cb))"

definition handle_failure ::
  "instant \<Rightarrow> instant \<Rightarrow> pyexc \<Rightarrow> CircuitBreaker \<Rightarrow> pyexc option \<times> CircuitBreaker" where
  "handle_failure utcnow_detail utcnow_failure exc cb =
     (case circuit_state (storage_state cb) of
        OPEN_STATE \<Rightarrow> (None, CircuitOpenState_on_failure exc cb)
      | CLOSED_STATE \<Rightarrow> CircuitCloseState_on_failure utcnow_detail utcnow_failure exc cb
      | HALF_OPEN_STATE \<Rightarrow> (None, CircuitHalfOpenState_on_failure utcnow_failure exc cb))"

text \<open>
  One invocation of the wrapped function, as the environment determines it: the clock
  readings made on the way, and what \<^verbatim>\<open>func\<close> itself does (it returns a value, or raises
  an \<^verbatim>\<open>Exception\<close>). The function does not touch the breaker. The readings are
  \<^verbatim>\<open>utcnow()\<close> in the permission check of the open state, \<^verbatim>\<open>time.time()\<close> before and
  after the function, \<^verbatim>\<open>utcnow()\<close> in the \<^verbatim>\<open>CallDetail\<close> created and \<^verbatim>\<open>utcnow()\<close> in
  \<^verbatim>\<open>update_last_failure_time\<close>; a second \<^verbatim>\<open>CallDetail\<close>, created when the success
  handler raised, gets the reading of the first.
\<close>

record 'a attempt =
  utc_before :: instant
  start_time :: rat
  end_time :: rat
  work :: "pyexc + 'a"
  utc_detail :: instant
  utc_failure :: instant

text \<open>
  The \<^verbatim>\<open>except Exception\<close> clause of the wrapper: \<^verbatim>\<open>handle_failure\<close>, then the bare
  \<^verbatim>\<open>raise\<close> of the exception caught, unless the handler itself raised.
\<close>

definition except_clause :: "'a attempt \<Rightarrow> pyexc \<Rightarrow> CircuitBreaker \<Rightarrow> (pyexc + 'a) \<times> CircuitBreaker" where
  "except_clause a cbe cb =
     (case handle_failure (utc_detail a) (utc_failure a) cbe cb of
        (Some e, cb1) \<Rightarrow> (Inl e, cb1)
      | (None, cb1) \<Rightarrow> (Inl cbe, cb1))"

definition wrapper :: "'a attempt \<Rightarrow> CircuitBreaker \<Rightarrow> (pyexc + 'a) \<times> CircuitBreaker" where
  "wrapper a cb =
     (case handle_before_call (utc_before a) cb of
        (Some e, cb1) \<Rightarrow> (Inl e, cb1)
      | (None, cb1) \<Rightarrow>
          (case work a of
             Inl cbe \<Rightarrow> except_clause a cbe cb1
           | Inr result \<Rightarrow>
               (case check_if_execution_time_breached (start_time a) (end_time a) cb1 of
                  Some cbe \<Rightarrow> except_clause a cbe cb1
                | None \<Rightarrow>
                    (case handle_success (utc_detail a) cb1 of
                       (Some cbe, cb2) \<Rightarrow> except_clause a cbe cb2
                     | (None, cb2) \<Rightarrow> (Inr result, cb2)))))"

text \<open>A sequence of invocations, one after the other, on the same breaker.\<close>

fun run :: "'a attempt list \<Rightarrow> CircuitBreaker \<Rightarrow> CircuitBreaker" where
  "run [] cb = cb"
| "run (a # as) cb = run as (snd (wrapper a cb))"

subsection \<open>Notions used in the statements\<close>

text \<open>
  An invocation counts as a failure when the function raised, or when it returned and
  the slow-call check raised.
\<close>

definition attempt_fails :: "CircuitBreaker \<Rightarrow> 'a attempt \<Rightarrow> bool" where
  "attempt_fails cb a =
     (case work a of
        Inl e \<Rightarrow> True
      | Inr v \<Rightarrow> check_if_execution_time_breached (start_time a) (end_time a) cb \<noteq> None)"

text \<open>The exception that reaches the \<^verbatim>\<open>except\<close> clause of a failing invocation.\<close>

definition failure_cause :: "'a attempt \<Rightarrow> pyexc" where
  "failure_cause a =
     (case work a of Inl e \<Rightarrow> e | Inr v \<Rightarrow> CircuitExecutionTimeBreachedException)"

text \<open>
  The fraction of failed records among the records of a window: the exact one, and the
  double that the division of the source makes of it.
\<close>

definition failure_fraction :: "CallDetail list \<Rightarrow> rat" where
  "failure_fraction ws =
     of_nat (length (filter (\<lambda>c. \<not> status c) ws)) / of_nat (length ws)"

definition double_failure_fraction :: "CallDetail list \<Rightarrow> rat" where
  "double_failure_fraction ws = double_round (failure_fraction ws)"

text \<open>The most recent \<open>w\<close> records of a sequence of records (all of them, if fewer).\<close>

definition most_recent :: "int \<Rightarrow> CallDetail list \<Rightarrow> CallDetail list" where
  "most_recent w ws = drop (length ws - nat w) ws"

text \<open>
  The configuration of a breaker: its store without the three parts that change.
\<close>

definition configuration :: "CircuitBreaker \<Rightarrow> CircuitStorage" where
  "configuration cb =
     (storage_state cb)\<lparr>total_calls := [], half_open_state_total_calls := 0,
                        circuit_state := CLOSED_STATE\<rparr>"

definition window_bounded :: "CircuitBreaker \<Rightarrow> bool" where
  "window_bounded cb =
     (int (length (total_calls (storage_state cb))) \<le> count_based_window_size (storage_state cb))"

text \<open>The half-open counter is zero unless the breaker is half-open.\<close>

definition counter_idle :: "CircuitBreaker \<Rightarrow> bool" where
  "counter_idle cb =
     (circuit_state (storage_state cb) = HALF_OPEN_STATE
      \<or> half_open_state_total_calls (storage_state cb) = 0)"

text \<open>
  The time elapsed between the last failure \<open>t\<close> and an instant, in microseconds, reaches
  a duration given in seconds.
\<close>

definition cool_down_elapsed :: "rat \<Rightarrow> instant \<Rightarrow> instant \<Rightarrow> bool" where
  "cool_down_elapsed duration t utcnow = (of_int (utcnow - t) \<ge> duration * 1000000)"

text \<open>What the caller of each invocation of a sequence receives.\<close>

fun outcomes :: "'a attempt list \<Rightarrow> CircuitBreaker \<Rightarrow> (pyexc + 'a) list" where
  "outcomes [] cb = []"
| "outcomes (a # as) cb = fst (wrapper a cb) # outcomes as (snd (wrapper a cb))"

text \<open>
  The two invocations of the demonstration at the end of the source, made at a given
  second: \<^verbatim>\<open>check(i)\<close> returns \<^verbatim>\<open>None\<close> at once, \<^verbatim>\<open>check(i, True)\<close> raises
  \<^verbatim>\<open>ZeroDivisionError\<close> at once. Its breaker has a window of 10 and a failure rate of 0.5.
\<close>

definition returning :: "int \<Rightarrow> unit attempt" where
  "returning sec =
     \<lparr> utc_before = sec * 1000000, start_time = of_int sec, end_time = of_int sec,
       work = Inr (), utc_detail = sec * 1000000, utc_failure = sec * 1000000 \<rparr>"

definition raising :: "int \<Rightarrow> unit attempt" where
  "raising sec =
     \<lparr> utc_before = sec * 1000000, start_time = of_int sec, end_time = of_int sec,
       work = Inl ZeroDivisionError, utc_detail = sec * 1000000, utc_failure = sec * 1000000 \<rparr>"

definition demo_breaker :: CircuitBreaker where
  "demo_breaker =
     CircuitBreaker_init (Some COUNT_BASED) (Some 10) None (Some (1 / 2)) None None None None []"

text \<open>
  A breaker with a window of 10 and the failure rate that the literal \<^verbatim>\<open>0.1\<close> denotes,
  the double nearest to one tenth, which is a little more than one tenth.
\<close>

definition tenth_breaker :: CircuitBreaker where
  "tenth_breaker =
     CircuitBreaker_init None (Some 10) None (Some (double_round (1 / 10)))
       None None None None []"

text \<open>
  A breaker with a window of one record and a cool-down of 10 seconds, tripped by a
  failure at instant 0.
\<close>

definition tripped :: CircuitBreaker where
  "tripped = run [raising 0]
     (CircuitBreaker_init None (Some 1) None None None None None (Some 10) [])"

text \<open>
  A breaker with the default window of two records and a half-open threshold of 3,
  tripped by two failures: as the permission check of the open state leaves it eleven
  seconds after the first failure, and after the successful invocation made then.
\<close>

definition probing :: CircuitBreaker where
  "probing = snd (handle_before_call 11000000
     (run [raising 0, raising 1]
        (CircuitBreaker_init None None None None None (Some 3) None None [])))"

definition half_open_breaker :: CircuitBreaker where
  "half_open_breaker = snd (wrapper (returning 11)
     (run [raising 0, raising 1]
        (CircuitBreaker_init None None None None None (Some 3) None None [])))"

text \<open>
  A breaker with a slow-call duration of one second and one listener, and two
  invocations that take two seconds: one raises, the other returns.
\<close>

definition slow_breaker :: CircuitBreaker where
  "slow_breaker = CircuitBreaker_init None None None None (Some 1) None None None [7]"

definition slow_raising :: "unit attempt" where
  "slow_raising =
     \<lparr> utc_before = 0, start_time = 0, end_time = 2,
       work = Inl (WorkException ''boom''), utc_detail = 2000000, utc_failure = 2000000 \<rparr>"

definition slow_returning :: "unit attempt" where
  "slow_returning =
     \<lparr> utc_before = 0, start_time = 0, end_time = 2,
       work = Inr (), utc_detail = 2000000, utc_failure = 2000000 \<rparr>"

section \<open>Construction\<close>

text \<open>
  C10: a breaker constructed with a zero window size, failure rate, open-state duration
  or half-open call threshold stores the default (2, 1.0, 10.0 and 1) in its place,
  whatever the other arguments are; so none of the four stored options is ever zero.
\<close>

theorem C10_falsy_arguments_give_defaults:
  "count_based_window_size (storage_state
      (CircuitBreaker_init swt (Some 0) tbws fr scd hosct hosd osd ls)) = 2
   \<and> failure_rate (storage_state
      (CircuitBreaker_init swt cbws tbws (Some 0) scd hosct hosd osd ls)) = 1
   \<and> open_state_duration (storage_state
      (CircuitBreaker_init swt cbws tbws fr scd hosct hosd (Some 0) ls)) = 10
   \<and> half_open_state_calls_threshold (storage_state
      (CircuitBreaker_init swt cbws tbws fr scd (Some 0) hosd osd ls)) = 1
   \<and> count_based_window_size (storage_state
      (CircuitBreaker_init swt cbws tbws fr scd hosct hosd osd ls)) \<noteq> 0
   \<and> failure_rate (storage_state
      (CircuitBreaker_init swt cbws tbws fr scd hosct hosd osd ls)) \<noteq> 0
   \<and> open_state_duration (storage_state
      (CircuitBreaker_init swt cbws tbws fr scd hosct hosd osd ls)) \<noteq> 0
   \<and> half_open_state_calls_threshold (storage_state
      (CircuitBreaker_init swt cbws tbws fr scd hosct hosd osd ls)) \<noteq> 0"
  by (simp add: CircuitBreaker_init_def CircuitStorage_init_def py_or_def
      DEFAULT_COUNT_BASED_WINDOW_SIZE_def DEFAULT_FAILURE_RATE_def
      DEFAULT_OPEN_STATE_DURATION_def DEFAULT_HALF_OPEN_STATE_CALLS_def
      split: option.split)

section \<open>The configuration is immutable\<close>

lemmas method_defs =
  reset_calls_def set_circuit_breaker_state_def update_last_failure_time_def
  update_circuit_state_def update_total_calls_details_def add_call_detail_def
  increment_half_open_state_success_calls_def reset_half_open_state_calls_counter_def
  check_half_open_call_success_def

lemmas handler_defs =
  CircuitBreakerState_on_success_def CircuitBreakerState_on_failure_def
  CircuitCloseState_on_failure_def CircuitOpenState_on_failure_def
  CircuitOpenState_before_call_def CircuitHalfOpenState_on_success_def
  CircuitHalfOpenState_on_failure_def

lemma configuration_fields:
  "count_based_window_size (storage_state cb) = count_based_window_size (configuration cb)"
  "failure_rate (storage_state cb) = failure_rate (configuration cb)"
  "slow_call_duration (storage_state cb) = slow_call_duration (configuration cb)"
  "open_state_duration (storage_state cb) = open_state_duration (configuration cb)"
  "half_open_state_calls_threshold (storage_state cb)
     = half_open_state_calls_threshold (configuration cb)"
  by (simp_all add: configuration_def)

lemma config_before:
  "configuration (snd (handle_before_call t cb)) = configuration cb"
  "listeners (snd (handle_before_call t cb)) = listeners cb"
  by (simp_all add: configuration_def handle_before_call_def handler_defs method_defs Let_def
      split: CircuitState.splits sum.splits)

lemma config_success:
  "configuration (snd (handle_success t cb)) = configuration cb"
  "listeners (snd (handle_success t cb)) = listeners cb"
  by (simp_all add: configuration_def handle_success_def handler_defs method_defs Let_def
      split: CircuitState.splits sum.splits prod.splits option.splits)

lemma config_failure:
  "configuration (snd (handle_failure t t' e cb)) = configuration cb"
  "listeners (snd (handle_failure t t' e cb)) = listeners cb"
  by (simp_all add: configuration_def handle_failure_def handler_defs method_defs Let_def
      split: CircuitState.splits sum.splits prod.splits option.splits)

lemma config_except:
  "configuration (snd (except_clause a e cb)) = configuration cb"
  "listeners (snd (except_clause a e cb)) = listeners cb"
  using config_failure[of "utc_detail a" "utc_failure a" e cb]
  by (auto simp: except_clause_def split: prod.splits option.splits)

lemma config_wrapper:
  "configuration (snd (wrapper a cb)) = configuration cb"
  "listeners (snd (wrapper a cb)) = listeners cb"
  using config_before[of "utc_before a" cb]
    config_success[of "utc_detail a" "snd (handle_before_call (utc_before a) cb)"]
    config_except[of a _ "snd (handle_before_call (utc_before a) cb)"]
    config_except[of a _
      "snd (handle_success (utc_detail a) (snd (handle_before_call (utc_before a) cb)))"]
  by (auto simp: wrapper_def split: prod.splits option.splits sum.splits)

lemma config_run:
  "configuration (run as cb) = configuration cb"
  "listeners (run as cb) = listeners cb"
  by (induction as arbitrary: cb) (simp_all add: config_wrapper)

section \<open>The outcome window\<close>

lemma popleft_while_nonneg:
  "0 \<le> w \<Longrightarrow> popleft_while w xs = (None, drop (length xs - nat w) xs)"
proof (induction xs)
  case Nil
  then show ?case by simp
next
  case (Cons c cs)
  show ?case
  proof (cases "int (length (c # cs)) > w")
    case True
    then have "length (c # cs) - nat w = Suc (length cs - nat w)"
      using Cons.prems by auto
    then show ?thesis using True Cons by simp
  next
    case False
    then have "length (c # cs) - nat w = 0" by auto
    then show ?thesis using False by simp
  qed
qed

lemma popleft_while_neg: "w < 0 \<Longrightarrow> popleft_while w xs = (Some IndexError, [])"
  by (induction xs) auto

lemma add_call_detail_nonneg:
  assumes "0 \<le> count_based_window_size (storage_state cb)"
  shows "add_call_detail t b cb =
    (None, cb\<lparr>storage_state := (storage_state cb)\<lparr>total_calls :=
        most_recent (count_based_window_size (storage_state cb))
          (total_calls (storage_state cb) @ [\<lparr>status = b, timestamp = t\<rparr>])\<rparr>\<rparr>)"
  using assms
  by (simp add: add_call_detail_def update_total_calls_details_def popleft_while_nonneg
      most_recent_def)

lemma add_call_detail_neg:
  assumes "count_based_window_size (storage_state cb) < 0"
  shows "add_call_detail t b cb =
    (Some IndexError, cb\<lparr>storage_state := (storage_state cb)\<lparr>total_calls := []\<rparr>\<rparr>)"
  using assms
  by (simp add: add_call_detail_def update_total_calls_details_def popleft_while_neg)

lemma length_most_recent: "0 \<le> w \<Longrightarrow> int (length (most_recent w xs)) \<le> w"
  by (auto simp: most_recent_def)

lemma bounded_add_call_detail:
  assumes "0 \<le> count_based_window_size (storage_state cb)"
  shows "window_bounded (snd (add_call_detail t b cb))"
  using assms by (simp add: add_call_detail_nonneg window_bounded_def length_most_recent)

lemma bounded_before:
  "window_bounded cb \<Longrightarrow> window_bounded (snd (handle_before_call t cb))"
  by (simp add: window_bounded_def handle_before_call_def handler_defs method_defs Let_def
      split: CircuitState.splits sum.splits)

lemma bounded_success:
  assumes "0 \<le> count_based_window_size (storage_state cb)" and "window_bounded cb"
  shows "window_bounded (snd (handle_success t cb))"
proof (cases "circuit_state (storage_state cb)")
  case HALF_OPEN_STATE
  then show ?thesis using assms
    by (simp add: handle_success_def window_bounded_def handler_defs method_defs Let_def)
next
  case OPEN_STATE
  then show ?thesis using assms(1)
    by (simp add: handle_success_def CircuitBreakerState_on_success_def add_call_detail_nonneg
        window_bounded_def length_most_recent)
next
  case CLOSED_STATE
  then show ?thesis using assms(1)
    by (simp add: handle_success_def CircuitBreakerState_on_success_def add_call_detail_nonneg
        window_bounded_def length_most_recent)
qed

lemma bounded_failure:
  assumes "0 \<le> count_based_window_size (storage_state cb)" and "window_bounded cb"
  shows "window_bounded (snd (handle_failure t t' e cb))"
proof (cases "circuit_state (storage_state cb)")
  case HALF_OPEN_STATE
  then show ?thesis using assms
    by (simp add: handle_failure_def window_bounded_def handler_defs method_defs Let_def)
next
  case OPEN_STATE
  then show ?thesis using assms
    by (simp add: handle_failure_def window_bounded_def handler_defs)
next
  case CLOSED_STATE
  then show ?thesis using assms(1)
    by (simp add: handle_failure_def CircuitCloseState_on_failure_def add_call_detail_nonneg
        CircuitBreakerState_on_failure_def set_circuit_breaker_state_def
        update_last_failure_time_def Let_def
        window_bounded_def length_most_recent split: sum.splits)
qed

lemma bounded_except:
  assumes "0 \<le> count_based_window_size (storage_state cb)" and "window_bounded cb"
  shows "window_bounded (snd (except_clause a e cb))"
  using bounded_failure[OF assms, of "utc_detail a" "utc_failure a" e]
  by (auto simp: except_clause_def split: prod.splits option.splits)

lemma bounded_wrapper:
  assumes "0 \<le> count_based_window_size (storage_state cb)" and "window_bounded cb"
  shows "window_bounded (snd (wrapper a cb))"
proof -
  obtain r cb1 where b: "handle_before_call (utc_before a) cb = (r, cb1)"
    by (cases "handle_before_call (utc_before a) cb")
  have w1: "0 \<le> count_based_window_size (storage_state cb1)"
    using config_before(1)[of "utc_before a" cb] assms(1) b
    by (simp add: configuration_fields)
  have b1: "window_bounded cb1"
    using bounded_before[OF assms(2), of "utc_before a"] b by simp
  obtain r2 cb2 where s: "handle_success (utc_detail a) cb1 = (r2, cb2)"
    by (cases "handle_success (utc_detail a) cb1")
  have w2: "0 \<le> count_based_window_size (storage_state cb2)"
    using config_success(1)[of "utc_detail a" cb1] w1 s
    by (simp add: configuration_fields)
  have b2: "window_bounded cb2"
    using bounded_success[OF w1 b1, of "utc_detail a"] s by simp
  show ?thesis
    using b s b1 b2 bounded_except[OF w1 b1, of a] bounded_except[OF w2 b2, of a]
    by (auto simp: wrapper_def split: option.splits sum.splits)
qed

lemma bounded_run:
  assumes "0 \<le> count_based_window_size (storage_state cb)" and "window_bounded cb"
  shows "window_bounded (run as cb)"
  using assms
proof (induction as arbitrary: cb)
  case Nil
  then show ?case by simp
next
  case (Cons a as)
  have "0 \<le> count_based_window_size (storage_state (snd (wrapper a cb)))"
    using config_wrapper(1)[of a cb] Cons.prems(1) by (simp add: configuration_fields)
  then show ?case
    using Cons.IH[of "snd (wrapper a cb)"] bounded_wrapper[OF Cons.prems, of a] by simp
qed

text \<open>
  C6: with a window size that is not negative (the specification has it at least 1),
  \<^verbatim>\<open>add_call_detail\<close> appends the record and then evicts from the front, which leaves
  the most recent records, at most the window size of them; and every operation of the
  breaker, the wrapper and any sequence of invocations included, keeps the window
  within the window size.
\<close>

theorem C6_window_never_exceeds_size:
  assumes "0 \<le> count_based_window_size (storage_state cb)"
  shows "add_call_detail t b cb =
           (None, cb\<lparr>storage_state := (storage_state cb)\<lparr>total_calls :=
              most_recent (count_based_window_size (storage_state cb))
                (total_calls (storage_state cb) @ [\<lparr>status = b, timestamp = t\<rparr>])\<rparr>\<rparr>)
         \<and> window_bounded (snd (add_call_detail t b cb))
         \<and> (window_bounded cb \<longrightarrow>
               window_bounded (snd (handle_before_call t cb))
             \<and> window_bounded (snd (handle_success t cb))
             \<and> window_bounded (snd (handle_failure t t' e cb))
             \<and> window_bounded (snd (wrapper a cb))
             \<and> window_bounded (run as cb)
             \<and> window_bounded (set_circuit_breaker_state st cb)
             \<and> window_bounded (update_circuit_state st cb)
             \<and> window_bounded (update_last_failure_time t cb)
             \<and> window_bounded (reset_calls cb)
             \<and> window_bounded (reset_half_open_state_calls_counter cb)
             \<and> window_bounded (increment_half_open_state_success_calls cb)
             \<and> window_bounded (circuit_close cb)
             \<and> window_bounded (circuit_open cb)
             \<and> window_bounded (circuit_half_open cb))"
proof (intro conjI impI)
  show "add_call_detail t b cb =
           (None, cb\<lparr>storage_state := (storage_state cb)\<lparr>total_calls :=
              most_recent (count_based_window_size (storage_state cb))
                (total_calls (storage_state cb) @ [\<lparr>status = b, timestamp = t\<rparr>])\<rparr>\<rparr>)"
    by (rule add_call_detail_nonneg[OF assms])
  show "window_bounded (snd (add_call_detail t b cb))"
    by (rule bounded_add_call_detail[OF assms])
next
  assume wb: "window_bounded cb"
  show "window_bounded (snd (handle_before_call t cb))" by (rule bounded_before[OF wb])
  show "window_bounded (snd (handle_success t cb))" by (rule bounded_success[OF assms wb])
  show "window_bounded (snd (handle_failure t t' e cb))" by (rule bounded_failure[OF assms wb])
  show "window_bounded (snd (wrapper a cb))" by (rule bounded_wrapper[OF assms wb])
  show "window_bounded (run as cb)" by (rule bounded_run[OF assms wb])
  show "window_bounded (set_circuit_breaker_state st cb)"
    using wb by (simp add: window_bounded_def set_circuit_breaker_state_def Let_def)
  show "window_bounded (update_circuit_state st cb)"
    using wb by (simp add: window_bounded_def update_circuit_state_def)
  show "window_bounded (update_last_failure_time t cb)"
    using wb by (simp add: window_bounded_def update_last_failure_time_def)
  show "window_bounded (reset_calls cb)"
    using assms by (simp add: window_bounded_def reset_calls_def)
  show "window_bounded (reset_half_open_state_calls_counter cb)"
    using wb by (simp add: window_bounded_def reset_half_open_state_calls_counter_def)
  show "window_bounded (increment_half_open_state_success_calls cb)"
    using wb by (simp add: window_bounded_def increment_half_open_state_success_calls_def)
  show "window_bounded (circuit_close cb)"
    using wb by (simp add: window_bounded_def circuit_close_def)
  show "window_bounded (circuit_open cb)"
    using wb by (simp add: window_bounded_def circuit_open_def)
  show "window_bounded (circuit_half_open cb)"
    using wb by (simp add: window_bounded_def circuit_half_open_def)
qed

text \<open>
  The breaker of the demonstration (window size 10) after twelve invocations: its
  window holds the ten most recent outcomes.
\<close>

theorem C6_window_never_exceeds_size_witness:
  "window_bounded
     (run [returning 0, returning 1, raising 2, returning 3, returning 4, returning 5,
           returning 6, raising 7, returning 8, returning 9, returning 10, returning 11]
        demo_breaker)
   \<and> length (total_calls (storage_state
     (run [returning 0, returning 1, raising 2, returning 3, returning 4, returning 5,
           returning 6, raising 7, returning 8, returning 9, returning 10, returning 11]
        demo_breaker))) = 10"
proof -
  have h: "0 \<le> count_based_window_size (storage_state demo_breaker)"
    by code_simp
  have wb: "window_bounded demo_breaker"
    by code_simp
  have len: "length (total_calls (storage_state
     (run [returning 0, returning 1, raising 2, returning 3, returning 4, returning 5,
           returning 6, raising 7, returning 8, returning 9, returning 10, returning 11]
        demo_breaker))) = 10"
    by code_simp
  from C6_window_never_exceeds_size[OF h] wb len show ?thesis
    by blast
qed

section \<open>Division in double precision\<close>

text \<open>
  Rounding to a double does not take a number below a double that it reaches: a quotient
  that is at least a given double is still at least that double once rounded.
\<close>

lemma round_half_even_ge_floor: "\<lfloor>x\<rfloor> \<le> round_half_even x"
  by (simp add: round_half_even_def Let_def)

lemma round_half_even_of_int: "round_half_even (of_int k) = k"
  by (simp add: round_half_even_def Let_def)

lemma of_int_le_round_half_even:
  assumes "of_int k \<le> x" shows "k \<le> round_half_even x"
proof -
  have "k \<le> \<lfloor>x\<rfloor>" using assms by (simp add: le_floor_iff)
  then show ?thesis using round_half_even_ge_floor[of x] by linarith
qed

lemma floor_log2_bounds:
  assumes "0 < q"
  shows "2 powi (floor_log2 q) \<le> q" and "q < 2 powi (floor_log2 q + 1)"
proof -
  obtain a b where ab: "quotient_of q = (a, b)" by (cases "quotient_of q")
  have b: "0 < b" using quotient_of_denom_pos[OF ab] .
  have q: "q = of_int a / of_int b" using quotient_of_div[OF ab] .
  have a: "0 < a" using assms b q by (simp add: zero_less_divide_iff)
  define la where "la = bitlen a"
  define lb where "lb = bitlen b"
  have la1: "1 \<le> la" and lb1: "1 \<le> lb"
    using a b bitlen_eq_zero_iff[of a] bitlen_eq_zero_iff[of b] bitlen_nonneg[of a] bitlen_nonneg[of b]
    by (auto simp: la_def lb_def)
  have A: "(2::rat) powi (la - 1) \<le> of_int a" "of_int a < (2::rat) powi la"
  proof -
    have "2 ^ nat (la - 1) \<le> a" "a < 2 ^ nat la"
      using bitlen_bounds[OF a] by (simp_all add: la_def)
    then have "(of_int (2 ^ nat (la - 1)) :: rat) \<le> of_int a" "(of_int a :: rat) < of_int (2 ^ nat la)"
      by (simp_all only: of_int_le_iff of_int_less_iff)
    then show "(2::rat) powi (la - 1) \<le> of_int a" "of_int a < (2::rat) powi la"
      using la1 by (simp_all add: power_int_def)
  qed
  have B: "(2::rat) powi (lb - 1) \<le> of_int b" "of_int b < (2::rat) powi lb"
  proof -
    have "2 ^ nat (lb - 1) \<le> b" "b < 2 ^ nat lb"
      using bitlen_bounds[OF b] by (simp_all add: lb_def)
    then have "(of_int (2 ^ nat (lb - 1)) :: rat) \<le> of_int b" "(of_int b :: rat) < of_int (2 ^ nat lb)"
      by (simp_all only: of_int_le_iff of_int_less_iff)
    then show "(2::rat) powi (lb - 1) \<le> of_int b" "of_int b < (2::rat) powi lb"
      using lb1 by (simp_all add: power_int_def)
  qed
  have bpos: "(0::rat) < of_int b" using b by simp
  have apos: "(0::rat) < of_int a" using a by simp
  have lower: "(2::rat) powi (la - lb - 1) < q"
  proof -
    have "(2::rat) powi (la - lb - 1) * of_int b < 2 powi (la - lb - 1) * 2 powi lb"
      using B(2) by (simp add: zero_less_power_int)
    also have "\<dots> = 2 powi (la - 1)"
      by (simp add: power_int_add[symmetric])
    also have "\<dots> \<le> of_int a" by (rule A(1))
    finally show ?thesis using bpos by (simp add: q pos_less_divide_eq)
  qed
  have upper: "q < (2::rat) powi (la - lb + 1)"
  proof -
    have "of_int a < (2::rat) powi la" by (rule A(2))
    also have "\<dots> = 2 powi (la - lb + 1) * 2 powi (lb - 1)"
      by (simp add: power_int_add[symmetric])
    also have "\<dots> \<le> 2 powi (la - lb + 1) * of_int b"
      using B(1) by (simp add: zero_less_power_int)
    finally show ?thesis using bpos by (simp add: q pos_divide_less_eq)
  qed
  have fl: "floor_log2 q = (if 2 powi (la - lb) \<le> q then la - lb else la - lb - 1)"
    by (simp add: floor_log2_def ab la_def lb_def Let_def)
  show "2 powi (floor_log2 q) \<le> q"
    using lower by (auto simp: fl)
  show "q < 2 powi (floor_log2 q + 1)"
    using upper by (auto simp: fl)
qed


lemma floor_log2_mono:
  assumes "0 < r" and "r \<le> q"
  shows "floor_log2 r \<le> floor_log2 q"
proof (rule ccontr)
  assume "\<not> floor_log2 r \<le> floor_log2 q"
  then have "floor_log2 q + 1 \<le> floor_log2 r" by simp
  then have "(2::rat) powi (floor_log2 q + 1) \<le> 2 powi (floor_log2 r)"
    by (intro power_int_increasing) simp_all
  moreover have "q < 2 powi (floor_log2 q + 1)"
    using floor_log2_bounds(2)[of q] assms by simp
  moreover have "2 powi (floor_log2 r) \<le> r"
    using floor_log2_bounds(1)[OF assms(1)] .
  ultimately show False using assms(2) by linarith
qed

lemma double_round_nonneg:
  assumes "0 \<le> q" shows "0 \<le> double_round q"
proof (cases "q = 0")
  case True
  then show ?thesis by (simp add: double_round_def)
next
  case False
  define u :: rat where "u = 2 powi (max (floor_log2 \<bar>q\<bar>) (- 1022) - 52)"
  have u: "0 < u" by (simp add: u_def zero_less_power_int)
  have "0 \<le> q / u" using assms u by simp
  then have "0 \<le> round_half_even (q / u)"
    using of_int_le_round_half_even[of 0 "q / u"] by simp
  then show ?thesis
    using False u by (simp add: double_round_def Let_def u_def[symmetric])
qed

lemma double_round_ge:
  assumes "r \<le> q" and "0 \<le> q" and "double_round r = r"
  shows "r \<le> double_round q"
proof (cases "0 < r")
  case False
  then show ?thesis using double_round_nonneg[OF assms(2)] by linarith
next
  case True
  then have q: "0 < q" using assms(1) by linarith
  define Er where "Er = max (floor_log2 r) (- 1022)"
  define Eq where "Eq = max (floor_log2 q) (- 1022)"
  define ur :: rat where "ur = 2 powi (Er - 52)"
  define uq :: rat where "uq = 2 powi (Eq - 52)"
  have ur: "0 < ur" and uq: "0 < uq" by (simp_all add: ur_def uq_def zero_less_power_int)
  have dr: "double_round r = of_int (round_half_even (r / ur)) * ur"
    using True by (simp add: double_round_def Let_def ur_def Er_def)
  have dq: "double_round q = of_int (round_half_even (q / uq)) * uq"
    using q by (simp add: double_round_def Let_def uq_def Eq_def)
  have le: "Er \<le> Eq"
    using floor_log2_mono[OF True assms(1)] by (simp add: Er_def Eq_def)
  show ?thesis
  proof (cases "Er = Eq")
    case True
    then have same: "ur = uq" by (simp add: ur_def uq_def)
    define k where "k = round_half_even (r / uq)"
    have rk: "r = of_int k * uq" using assms(3) dr same by (simp add: k_def)
    have "of_int k \<le> q / uq"
      using assms(1) uq by (simp add: rk pos_le_divide_eq)
    then have "k \<le> round_half_even (q / uq)" by (rule of_int_le_round_half_even)
    then have "(of_int k :: rat) * uq \<le> of_int (round_half_even (q / uq)) * uq"
      using uq by simp
    then show ?thesis by (simp add: dq rk[symmetric])
  next
    case False
    then have lt: "Er < Eq" using le by simp
    then have Eq: "Eq = floor_log2 q" by (auto simp: Er_def Eq_def)
    have "floor_log2 r + 1 \<le> Eq" using lt by (simp add: Er_def)
    then have "(2::rat) powi (floor_log2 r + 1) \<le> 2 powi Eq"
      by (intro power_int_increasing) simp_all
    then have r_lt: "r < 2 powi Eq"
      using floor_log2_bounds(2)[OF True] by linarith
    have "(2::rat) powi Eq \<le> q"
      using floor_log2_bounds(1)[OF q] by (simp add: Eq)
    moreover have "(2::rat) powi Eq = of_int (2 ^ 52) * uq"
    proof -
      have "(2::rat) powi (52 + (Eq - 52)) = 2 powi 52 * 2 powi (Eq - 52)"
        by (rule power_int_add) simp
      moreover have "52 + (Eq - 52) = Eq" by simp
      ultimately have e1: "(2::rat) powi Eq = 2 powi 52 * 2 powi (Eq - 52)"
        by (simp only:)
      have e2: "(2::rat) powi 52 = of_int (2 ^ 52)" by (simp add: power_int_def)
      show ?thesis unfolding uq_def e2[symmetric] by (rule e1)
    qed
    ultimately have "of_int (2 ^ 52) \<le> q / uq"
      using uq by (simp add: pos_le_divide_eq)
    then have "2 ^ 52 \<le> round_half_even (q / uq)" by (rule of_int_le_round_half_even)
    then have "(of_int (2 ^ 52) :: rat) * uq \<le> of_int (round_half_even (q / uq)) * uq"
      using uq by (simp only: of_int_le_iff mult_le_cancel_right_pos)
    then have "2 powi Eq \<le> double_round q"
      using \<open>(2::rat) powi Eq = of_int (2 ^ 52) * uq\<close> by (simp only: dq)
    then show ?thesis using r_lt by linarith
  qed
qed

lemma double_round_half: "double_round (1 / 2) = 1 / 2" by code_simp

text \<open>
  Known doubles: the quotients \<^verbatim>\<open>1 / 10\<close> and \<^verbatim>\<open>1 / 3\<close>, an exact quotient, and a tie
  that goes to the even significand.
\<close>

lemma py_truediv_examples:
  "py_truediv 1 10 = 3602879701896397 / 36028797018963968"
  "py_truediv 1 3 = 6004799503160661 / 18014398509481984"
  "py_truediv 5 10 = 1 / 2"
  "py_truediv 9007199254740993 1 = 9007199254740992"
  "py_truediv 9007199254740995 1 = 9007199254740996"
  by code_simp+

lemma failure_fraction_nonneg: "0 \<le> failure_fraction ws"
  by (simp add: failure_fraction_def)

section \<open>Tripping: from closed to open\<close>

lemma count_fails_filter:
  "count_fails ws k = k + int (length (filter (\<lambda>c. \<not> status c) ws))"
  by (induction ws arbitrary: k) auto

lemma max_fails_nonempty:
  assumes "total_calls (storage_state cb) \<noteq> []"
  shows "check_if_max_fails_reached cb =
     Inr (int (length (total_calls (storage_state cb))) \<ge> count_based_window_size (storage_state cb)
          \<and> double_failure_fraction (total_calls (storage_state cb)) \<ge> failure_rate (storage_state cb))"
  using assms
  by (simp add: check_if_max_fails_reached_def Let_def count_fails_filter
      double_failure_fraction_def failure_fraction_def py_truediv_def)

lemma most_recent_nonempty: "1 \<le> w \<Longrightarrow> most_recent w (xs @ [x]) \<noteq> []"
  by (simp add: most_recent_def)

lemma closed_failure:
  fixes cb :: CircuitBreaker and t :: int
  assumes "circuit_state (storage_state cb) = CLOSED_STATE"
    and "1 \<le> count_based_window_size (storage_state cb)"
  defines "win \<equiv> most_recent (count_based_window_size (storage_state cb))
                   (total_calls (storage_state cb) @ [\<lparr>status = False, timestamp = t\<rparr>])"
  shows "fst (handle_failure t t' e cb) = None"
    and "total_calls (storage_state (snd (handle_failure t t' e cb))) = win"
    and "circuit_state (storage_state (snd (handle_failure t t' e cb))) =
          (if int (length win) \<ge> count_based_window_size (storage_state cb)
              \<and> double_failure_fraction win \<ge> failure_rate (storage_state cb)
           then OPEN_STATE else CLOSED_STATE)"
    and "last_failure_time (snd (handle_failure t t' e cb)) = Some t'"
    and "half_open_state_total_calls (storage_state (snd (handle_failure t t' e cb)))
          = half_open_state_total_calls (storage_state cb)"
proof -
  have w0: "0 \<le> count_based_window_size (storage_state cb)" using assms(2) by simp
  have ne: "win \<noteq> []" unfolding win_def by (rule most_recent_nonempty[OF assms(2)])
  let ?cb2 = "update_last_failure_time t' (cb\<lparr>storage_state := (storage_state cb)\<lparr>total_calls := win\<rparr>\<rparr>)"
  have chk: "check_if_max_fails_reached ?cb2 =
     Inr (int (length win) \<ge> count_based_window_size (storage_state cb)
          \<and> double_failure_fraction win \<ge> failure_rate (storage_state cb))"
    using ne max_fails_nonempty[of ?cb2] by (simp add: update_last_failure_time_def)
  have hf: "handle_failure t t' e cb =
     (None, CircuitBreakerState_on_failure e
        (if int (length win) \<ge> count_based_window_size (storage_state cb)
              \<and> double_failure_fraction win \<ge> failure_rate (storage_state cb)
         then set_circuit_breaker_state OPEN_STATE ?cb2 else ?cb2))"
    using assms(1) chk
    by (simp add: handle_failure_def CircuitCloseState_on_failure_def
        add_call_detail_nonneg[OF w0] win_def Let_def)
  show "fst (handle_failure t t' e cb) = None" by (simp add: hf)
  show "total_calls (storage_state (snd (handle_failure t t' e cb))) = win"
    by (simp add: hf CircuitBreakerState_on_failure_def set_circuit_breaker_state_def
        update_last_failure_time_def Let_def)
  show "circuit_state (storage_state (snd (handle_failure t t' e cb))) =
          (if int (length win) \<ge> count_based_window_size (storage_state cb)
              \<and> double_failure_fraction win \<ge> failure_rate (storage_state cb)
           then OPEN_STATE else CLOSED_STATE)"
    using assms(1)
    by (simp add: hf CircuitBreakerState_on_failure_def set_circuit_breaker_state_def
        update_last_failure_time_def Let_def)
  show "last_failure_time (snd (handle_failure t t' e cb)) = Some t'"
    by (simp add: hf CircuitBreakerState_on_failure_def set_circuit_breaker_state_def
        update_last_failure_time_def Let_def)
  show "half_open_state_total_calls (storage_state (snd (handle_failure t t' e cb)))
          = half_open_state_total_calls (storage_state cb)"
    by (simp add: hf CircuitBreakerState_on_failure_def set_circuit_breaker_state_def
        update_last_failure_time_def Let_def)
qed

lemma base_success:
  assumes "circuit_state (storage_state cb) \<noteq> HALF_OPEN_STATE"
    and "0 \<le> count_based_window_size (storage_state cb)"
  shows "handle_success t cb =
     (None, cb\<lparr>storage_state := (storage_state cb)\<lparr>total_calls :=
                 most_recent (count_based_window_size (storage_state cb))
                   (total_calls (storage_state cb) @ [\<lparr>status = True, timestamp = t\<rparr>])\<rparr>,
               notified := notified cb @ map Success_cb (listeners cb)\<rparr>)"
  using assms(1)
  by (cases "circuit_state (storage_state cb)")
     (simp_all add: handle_success_def CircuitBreakerState_on_success_def
        add_call_detail_nonneg[OF assms(2)])

lemma half_open_success:
  assumes "circuit_state (storage_state cb) = HALF_OPEN_STATE"
  shows "handle_success t cb = (None, CircuitHalfOpenState_on_success cb)"
  using assms by (simp add: handle_success_def)

lemma no_raise:
  assumes "1 \<le> count_based_window_size (storage_state cb)"
  shows "fst (handle_success t cb) = None" and "fst (handle_failure t t' e cb) = None"
proof -
  have w0: "0 \<le> count_based_window_size (storage_state cb)" using assms by simp
  show "fst (handle_success t cb) = None"
    by (cases "circuit_state (storage_state cb) = HALF_OPEN_STATE")
       (simp_all add: half_open_success base_success[OF _ w0])
  show "fst (handle_failure t t' e cb) = None"
  proof (cases "circuit_state (storage_state cb)")
    case CLOSED_STATE
    then show ?thesis by (rule closed_failure(1)[OF _ assms])
  qed (simp_all add: handle_failure_def)
qed

lemma attempt_fails_config:
  "configuration cb' = configuration cb \<Longrightarrow> attempt_fails cb' a = attempt_fails cb a"
  by (simp add: attempt_fails_def check_if_execution_time_breached_def configuration_fields
      split: sum.splits)

lemma wrapper_rejected:
  assumes "handle_before_call (utc_before a) cb = (Some e, cb1)"
  shows "wrapper a cb = (Inl e, cb1)"
  using assms by (simp add: wrapper_def)

lemma except_clause_no_raise:
  assumes "fst (handle_failure (utc_detail a) (utc_failure a) e cb) = None"
  shows "except_clause a e cb = (Inl e, snd (handle_failure (utc_detail a) (utc_failure a) e cb))"
  using assms
  by (cases "handle_failure (utc_detail a) (utc_failure a) e cb") (simp add: except_clause_def)

lemma wrapper_admitted:
  assumes "handle_before_call (utc_before a) cb = (None, cb1)"
    and "1 \<le> count_based_window_size (storage_state cb)"
  shows "wrapper a cb =
     (if attempt_fails cb a
      then (Inl (failure_cause a),
            snd (handle_failure (utc_detail a) (utc_failure a) (failure_cause a) cb1))
      else (work a, snd (handle_success (utc_detail a) cb1)))"
proof -
  have c1: "configuration cb1 = configuration cb"
    using config_before(1)[of "utc_before a" cb] assms(1) by simp
  then have w1: "1 \<le> count_based_window_size (storage_state cb1)"
    using assms(2) by (simp add: configuration_fields)
  have chk: "check_if_execution_time_breached (start_time a) (end_time a) cb1
           = check_if_execution_time_breached (start_time a) (end_time a) cb"
    using c1 by (simp add: check_if_execution_time_breached_def configuration_fields)
  obtain cb2 where s: "handle_success (utc_detail a) cb1 = (None, cb2)"
    using no_raise(1)[OF w1, of "utc_detail a"]
    by (cases "handle_success (utc_detail a) cb1") auto
  note ex = except_clause_no_raise[OF no_raise(2)[OF w1]]
  show ?thesis
  proof (cases "work a")
    case (Inl e)
    then show ?thesis
      using assms(1) by (simp add: wrapper_def ex attempt_fails_def failure_cause_def)
  next
    case (Inr v)
    show ?thesis
    proof (cases "check_if_execution_time_breached (start_time a) (end_time a) cb")
      case None
      then show ?thesis
        using assms(1) Inr s chk by (simp add: wrapper_def attempt_fails_def)
    next
      case (Some x)
      then have "x = CircuitExecutionTimeBreachedException"
        by (auto simp: check_if_execution_time_breached_def split: option.splits if_splits)
      then show ?thesis
        using assms(1) Inr Some chk
        by (simp add: wrapper_def ex attempt_fails_def failure_cause_def)
    qed
  qed
qed

lemma closed_before:
  "circuit_state (storage_state cb) = CLOSED_STATE \<Longrightarrow> handle_before_call t cb = (None, cb)"
  by (simp add: handle_before_call_def)

lemma closed_wrapper:
  fixes cb :: CircuitBreaker and a :: "'a attempt"
  assumes "circuit_state (storage_state cb) = CLOSED_STATE"
    and "1 \<le> count_based_window_size (storage_state cb)"
  defines "win \<equiv> most_recent (count_based_window_size (storage_state cb))
      (total_calls (storage_state cb) @ [\<lparr>status = \<not> attempt_fails cb a, timestamp = utc_detail a\<rparr>])"
  shows "total_calls (storage_state (snd (wrapper a cb))) = win"
    and "circuit_state (storage_state (snd (wrapper a cb))) =
          (if attempt_fails cb a
              \<and> int (length win) \<ge> count_based_window_size (storage_state cb)
              \<and> double_failure_fraction win \<ge> failure_rate (storage_state cb)
           then OPEN_STATE else CLOSED_STATE)"
proof -
  have w0: "0 \<le> count_based_window_size (storage_state cb)" using assms(2) by simp
  note w = wrapper_admitted[OF closed_before[OF assms(1)] assms(2), of a]
  note hs = base_success[OF _ w0, of "utc_detail a"]
  note hf = closed_failure[OF assms(1,2), of "utc_detail a" "utc_failure a" "failure_cause a"]
  show "total_calls (storage_state (snd (wrapper a cb))) = win"
    using assms(1) by (simp add: w hs hf(2) win_def)
  show "circuit_state (storage_state (snd (wrapper a cb))) =
          (if attempt_fails cb a
              \<and> int (length win) \<ge> count_based_window_size (storage_state cb)
              \<and> double_failure_fraction win \<ge> failure_rate (storage_state cb)
           then OPEN_STATE else CLOSED_STATE)"
    using assms(1) by (simp add: w hs hf(3) win_def)
qed

text \<open>
  C1, as amended: the trip condition is evaluated only when a failure is recorded, on
  the failure fraction in double precision. An invocation made while the breaker is
  closed (window size at least 1) leaves in the window the most recent records, the one
  of this invocation last, and the breaker becomes open if and only if the invocation
  failed, the window has reached the window size and its fraction of failures, rounded to
  the nearest double as the division of the source does, is at least the failure rate;
  otherwise it stays closed, so it never trips on fewer records than the window size, and
  never on a success. In particular it trips on a failure that fills the window whenever
  the exact fraction of failures is at least a failure rate that is a double. With a
  window of 10 and a rate of 0.5, five successes followed by five failures trip the
  breaker exactly at the tenth outcome, and five failures followed by five successes
  leave it closed. With a window of 10 and a rate of 0.1, nine successes and a failure
  trip the breaker, the quotient 1 / 10 being rounded to the double 0.1, although one
  tenth is less than that double.
\<close>

theorem C1_trip_on_failure_with_full_window:
  fixes cb :: CircuitBreaker and a :: "'a attempt"
  assumes "circuit_state (storage_state cb) = CLOSED_STATE"
    and "1 \<le> count_based_window_size (storage_state cb)"
  defines "win \<equiv> most_recent (count_based_window_size (storage_state cb))
      (total_calls (storage_state cb) @ [\<lparr>status = \<not> attempt_fails cb a, timestamp = utc_detail a\<rparr>])"
  shows "total_calls (storage_state (snd (wrapper a cb))) = win
    \<and> (circuit_state (storage_state (snd (wrapper a cb))) = OPEN_STATE \<longleftrightarrow>
          attempt_fails cb a
          \<and> int (length win) \<ge> count_based_window_size (storage_state cb)
          \<and> double_failure_fraction win \<ge> failure_rate (storage_state cb))
    \<and> (circuit_state (storage_state (snd (wrapper a cb))) = CLOSED_STATE \<longleftrightarrow>
          \<not> (attempt_fails cb a
          \<and> int (length win) \<ge> count_based_window_size (storage_state cb)
          \<and> double_failure_fraction win \<ge> failure_rate (storage_state cb)))
    \<and> (attempt_fails cb a
          \<and> int (length win) \<ge> count_based_window_size (storage_state cb)
          \<and> double_round (failure_rate (storage_state cb)) = failure_rate (storage_state cb)
          \<and> failure_fraction win \<ge> failure_rate (storage_state cb) \<longrightarrow>
        circuit_state (storage_state (snd (wrapper a cb))) = OPEN_STATE)
    \<and> circuit_state (storage_state (run
          [returning 0, returning 1, returning 2, returning 3, returning 4,
           raising 5, raising 6, raising 7, raising 8] demo_breaker)) = CLOSED_STATE
    \<and> circuit_state (storage_state (run
          [returning 0, returning 1, returning 2, returning 3, returning 4,
           raising 5, raising 6, raising 7, raising 8, raising 9] demo_breaker)) = OPEN_STATE
    \<and> circuit_state (storage_state (run
          [raising 0, raising 1, raising 2, raising 3, raising 4,
           returning 5, returning 6, returning 7, returning 8, returning 9] demo_breaker))
        = CLOSED_STATE
    \<and> circuit_state (storage_state (run
          [returning 0, returning 1, returning 2, returning 3, returning 4,
           returning 5, returning 6, returning 7, returning 8, raising 9] tenth_breaker))
        = OPEN_STATE
    \<and> failure_fraction (total_calls (storage_state (run
          [returning 0, returning 1, returning 2, returning 3, returning 4,
           returning 5, returning 6, returning 7, returning 8, raising 9] tenth_breaker)))
        < failure_rate (storage_state tenth_breaker)"
proof -
  note cw = closed_wrapper[OF assms(1,2), of a, folded win_def]
  have exact: "double_failure_fraction win \<ge> failure_rate (storage_state cb)"
    if "double_round (failure_rate (storage_state cb)) = failure_rate (storage_state cb)"
      and "failure_fraction win \<ge> failure_rate (storage_state cb)"
    unfolding double_failure_fraction_def
    by (rule double_round_ge[OF that(2) failure_fraction_nonneg that(1)])
  have d1: "circuit_state (storage_state (run
          [returning 0, returning 1, returning 2, returning 3, returning 4,
           raising 5, raising 6, raising 7, raising 8] demo_breaker)) = CLOSED_STATE"
    by code_simp
  have d2: "circuit_state (storage_state (run
          [returning 0, returning 1, returning 2, returning 3, returning 4,
           raising 5, raising 6, raising 7, raising 8, raising 9] demo_breaker)) = OPEN_STATE"
    by code_simp
  have d3: "circuit_state (storage_state (run
          [raising 0, raising 1, raising 2, raising 3, raising 4,
           returning 5, returning 6, returning 7, returning 8, returning 9] demo_breaker))
        = CLOSED_STATE"
    by code_simp
  have d4: "circuit_state (storage_state (run
          [returning 0, returning 1, returning 2, returning 3, returning 4,
           returning 5, returning 6, returning 7, returning 8, raising 9] tenth_breaker))
        = OPEN_STATE"
    by code_simp
  have d5: "failure_fraction (total_calls (storage_state (run
          [returning 0, returning 1, returning 2, returning 3, returning 4,
           returning 5, returning 6, returning 7, returning 8, raising 9] tenth_breaker)))
        < failure_rate (storage_state tenth_breaker)"
    by code_simp
  show ?thesis
    using cw exact d1 d2 d3 d4 d5 by simp
qed

text \<open>
  The tenth outcome of the demonstration: a failure after five successes and four
  failures, and a success after five failures and four successes.
\<close>

theorem C1_trip_on_failure_with_full_window_witness:
  "circuit_state (storage_state (snd (wrapper (raising 9)
      (run [returning 0, returning 1, returning 2, returning 3, returning 4,
            raising 5, raising 6, raising 7, raising 8] demo_breaker)))) = OPEN_STATE
  \<and> circuit_state (storage_state (snd (wrapper (returning 9)
      (run [raising 0, raising 1, raising 2, raising 3, raising 4,
            returning 5, returning 6, returning 7, returning 8] demo_breaker)))) = CLOSED_STATE"
proof -
  let ?cb = "run [returning 0, returning 1, returning 2, returning 3, returning 4,
            raising 5, raising 6, raising 7, raising 8] demo_breaker"
  let ?cb' = "run [raising 0, raising 1, raising 2, raising 3, raising 4,
            returning 5, returning 6, returning 7, returning 8] demo_breaker"
  let ?win = "most_recent (count_based_window_size (storage_state ?cb))
      (total_calls (storage_state ?cb) @ [\<lparr>status = \<not> attempt_fails ?cb (raising 9),
         timestamp = utc_detail (raising 9)\<rparr>])"
  have h1: "circuit_state (storage_state ?cb) = CLOSED_STATE" by code_simp
  have h2: "1 \<le> count_based_window_size (storage_state ?cb)" by code_simp
  have h3: "attempt_fails ?cb (raising 9)
    \<and> int (length ?win) \<ge> count_based_window_size (storage_state ?cb)
    \<and> double_failure_fraction ?win \<ge> failure_rate (storage_state ?cb)"
    by code_simp
  have h4: "double_round (failure_rate (storage_state ?cb)) = failure_rate (storage_state ?cb)
    \<and> failure_fraction ?win \<ge> failure_rate (storage_state ?cb)"
    by code_simp
  have g1: "circuit_state (storage_state ?cb') = CLOSED_STATE" by code_simp
  have g2: "1 \<le> count_based_window_size (storage_state ?cb')" by code_simp
  have g3: "\<not> attempt_fails ?cb' (returning 9)" by code_simp
  from C1_trip_on_failure_with_full_window[OF h1 h2, of "raising 9"] h3 h4
    C1_trip_on_failure_with_full_window[OF g1 g2, of "returning 9"] g3
  show ?thesis by blast
qed

text \<open>
  The scenario of the claim itself: after five failures and five successes the window
  holds the ten outcomes, with a fraction of failures of 0.5, exactly and in double
  precision, and the breaker is not open.
\<close>

theorem C1_counterexample:
  "circuit_state (storage_state (run
      [raising 0, raising 1, raising 2, raising 3, raising 4,
       returning 5, returning 6, returning 7, returning 8] demo_breaker)) = CLOSED_STATE
   \<and> count_based_window_size (storage_state demo_breaker) = 10
   \<and> failure_rate (storage_state demo_breaker) = 1 / 2
   \<and> map status (total_calls (storage_state (run
      [raising 0, raising 1, raising 2, raising 3, raising 4,
       returning 5, returning 6, returning 7, returning 8, returning 9] demo_breaker)))
      = [False, False, False, False, False, True, True, True, True, True]
   \<and> failure_fraction (total_calls (storage_state (run
      [raising 0, raising 1, raising 2, raising 3, raising 4,
       returning 5, returning 6, returning 7, returning 8, returning 9] demo_breaker)))
      \<ge> failure_rate (storage_state demo_breaker)
   \<and> double_failure_fraction (total_calls (storage_state (run
      [raising 0, raising 1, raising 2, raising 3, raising 4,
       returning 5, returning 6, returning 7, returning 8, returning 9] demo_breaker)))
      \<ge> failure_rate (storage_state demo_breaker)
   \<and> circuit_state (storage_state (run
      [raising 0, raising 1, raising 2, raising 3, raising 4,
       returning 5, returning 6, returning 7, returning 8, returning 9] demo_breaker))
      \<noteq> OPEN_STATE"
  by code_simp

section \<open>The open state\<close>

lemma timedelta_seconds_le:
  assumes "0 \<le> us"
  shows "timedelta_seconds us * 1000000 \<le> us"
proof -
  have "0 \<le> us div 1000000" using assms by simp
  then have "timedelta_seconds us \<le> us div 1000000"
    unfolding timedelta_seconds_def by (simp add: zmod_le_nonneg_dividend)
  then have "timedelta_seconds us * 1000000 \<le> (us div 1000000) * 1000000" by simp
  moreover have "us = (us div 1000000) * 1000000 + us mod 1000000" by simp
  moreover have "0 \<le> us mod 1000000" by simp
  ultimately show ?thesis by linarith
qed

lemma not_elapsed_check:
  assumes "t \<le> utcnow" and "\<not> cool_down_elapsed d t utcnow"
  shows "\<not> (of_int (timedelta_seconds (utcnow - t)) \<ge> d)"
proof
  assume ge: "of_int (timedelta_seconds (utcnow - t)) \<ge> d"
  have "timedelta_seconds (utcnow - t) * 1000000 \<le> utcnow - t"
    using assms(1) by (simp add: timedelta_seconds_le)
  then have "(of_int (timedelta_seconds (utcnow - t) * 1000000) :: rat) \<le> of_int (utcnow - t)"
    by (simp only: of_int_le_iff)
  then have "(of_int (timedelta_seconds (utcnow - t)) :: rat) * 1000000 \<le> of_int (utcnow - t)"
    by simp
  moreover have "d * 1000000 \<le> of_int (timedelta_seconds (utcnow - t)) * 1000000"
    using ge by simp
  ultimately have "d * 1000000 \<le> of_int (utcnow - t)" by linarith
  then show False using assms(2) by (simp add: cool_down_elapsed_def)
qed

text \<open>
  Within a day of the last failure, and for a cool-down of whole seconds, the check of
  the code is the cool-down having elapsed.
\<close>

lemma elapsed_check_within_a_day:
  assumes "t \<le> utcnow" and "utcnow - t < 86400000000"
  shows "(of_int (timedelta_seconds (utcnow - t)) \<ge> (of_int d :: rat))
           \<longleftrightarrow> cool_down_elapsed (of_int d) t utcnow"
proof -
  define us where "us = utcnow - t"
  have us: "0 \<le> us" "us < 86400000000" using assms by (simp_all add: us_def)
  have split: "us = (us div 1000000) * 1000000 + us mod 1000000"
    "0 \<le> us mod 1000000" "us mod 1000000 < 1000000" by simp_all
  have "0 \<le> us div 1000000" "us div 1000000 < 86400"
    using us split by linarith+
  then have ts: "timedelta_seconds us = us div 1000000"
    by (simp add: timedelta_seconds_def)
  have "(d \<le> us div 1000000) \<longleftrightarrow> (d * 1000000 \<le> us)"
    using split by linarith
  moreover have "((of_int d :: rat) * 1000000 \<le> of_int us) \<longleftrightarrow> (d * 1000000 \<le> us)"
  proof -
    have "(of_int d :: rat) * 1000000 = of_int (d * 1000000)" by simp
    then show ?thesis by (simp only: of_int_le_iff)
  qed
  ultimately show ?thesis
    by (simp add: ts cool_down_elapsed_def us_def[symmetric])
qed

lemma open_before_call_within_a_day:
  assumes "circuit_state (storage_state cb) = OPEN_STATE"
    and "last_failure_time cb = Some t"
    and "open_state_duration (storage_state cb) = of_int d"
    and "t \<le> utcnow" and "utcnow - t < 86400000000"
  shows "handle_before_call utcnow cb =
     (if cool_down_elapsed (open_state_duration (storage_state cb)) t utcnow
      then (None, set_circuit_breaker_state HALF_OPEN_STATE cb)
      else (Some CircuitOpenException, cb))"
  using assms(1,2) elapsed_check_within_a_day[OF assms(4,5), of d]
  by (simp add: handle_before_call_def CircuitOpenState_before_call_def
      check_if_open_state_duration_elapsed_def assms(3))

lemma open_rejects:
  assumes "circuit_state (storage_state cb) = OPEN_STATE"
    and "last_failure_time cb = Some t"
    and "t \<le> utc_before a"
    and "\<not> cool_down_elapsed (open_state_duration (storage_state cb)) t (utc_before a)"
  shows "wrapper a cb = (Inl CircuitOpenException, cb)"
  using assms(1,2) not_elapsed_check[OF assms(3,4)]
  by (simp add: wrapper_def handle_before_call_def CircuitOpenState_before_call_def
      check_if_open_state_duration_elapsed_def)

lemma open_rejects_all:
  assumes "circuit_state (storage_state cb) = OPEN_STATE"
    and "last_failure_time cb = Some t"
    and "\<forall>a \<in> set as. t \<le> utc_before a
           \<and> \<not> cool_down_elapsed (open_state_duration (storage_state cb)) t (utc_before a)"
  shows "run as cb = cb" and "outcomes as cb = replicate (length as) (Inl CircuitOpenException)"
  using assms(3)
  by (induction as) (simp_all add: open_rejects[OF assms(1,2)])

text \<open>
  C5: while the breaker is open and, counted from the last failure, the cool-down has not
  elapsed (the clock not running backwards), every invocation raises
  \<^verbatim>\<open>CircuitOpenException\<close> and returns the breaker as it was: window, half-open counter,
  state, last failure time and everything else. So does any number of them in a row.
\<close>

theorem C5_rejection_leaves_state_unchanged:
  assumes "circuit_state (storage_state cb) = OPEN_STATE"
    and "last_failure_time cb = Some t"
    and "\<forall>a \<in> set as. t \<le> utc_before a
           \<and> \<not> cool_down_elapsed (open_state_duration (storage_state cb)) t (utc_before a)"
  shows "(\<forall>a \<in> set as. wrapper a cb = (Inl CircuitOpenException, cb))
       \<and> outcomes as cb = replicate (length as) (Inl CircuitOpenException)
       \<and> run as cb = cb"
  using open_rejects_all[OF assms] open_rejects[OF assms(1,2)] assms(3) by blast

text \<open>
  Three invocations within ten seconds of the failure that tripped a breaker.
\<close>

theorem C5_rejection_leaves_state_unchanged_witness:
  "outcomes [returning 1, raising 2, returning 9] tripped
      = [Inl CircuitOpenException, Inl CircuitOpenException, Inl CircuitOpenException]
   \<and> run [returning 1, raising 2, returning 9] tripped = tripped"
proof -
  have h1: "circuit_state (storage_state tripped) = OPEN_STATE" by code_simp
  have h2: "last_failure_time tripped = Some 0" by code_simp
  have h3: "\<forall>a \<in> set [returning 1, raising 2, returning 9]. 0 \<le> utc_before a
           \<and> \<not> cool_down_elapsed (open_state_duration (storage_state tripped)) 0 (utc_before a)"
    by code_simp
  from C5_rejection_leaves_state_unchanged[OF h1 h2 h3] show ?thesis
    by (simp add: numeral_3_eq_3)
qed

text \<open>
  C2 fails on the code: \<^verbatim>\<open>check_if_open_state_duration_elapsed\<close> reads the attribute
  \<^verbatim>\<open>seconds\<close> of the time elapsed, which leaves the days out. A breaker with a cool-down
  of 10 seconds, tripped by a failure at instant 0, rejects the invocation made one day
  and three seconds later, although the cool-down has long elapsed; the invocation made
  ten seconds after the failure is admitted.
\<close>

theorem C2_multi_day_gap_rejected:
  "circuit_state (storage_state tripped) = OPEN_STATE
   \<and> last_failure_time tripped = Some 0
   \<and> open_state_duration (storage_state tripped) = 10
   \<and> utc_before (returning 86403 :: unit attempt) = 86403000000
   \<and> cool_down_elapsed (open_state_duration (storage_state tripped)) 0
        (utc_before (returning 86403 :: unit attempt))
   \<and> wrapper (returning 86403) tripped = (Inl CircuitOpenException, tripped)
   \<and> circuit_state (storage_state (snd (wrapper (returning 10) tripped))) = CLOSED_STATE"
  by code_simp

text \<open>
  C9: a breaker that is set to open before any failure was observed has no last failure
  time, and its next invocation raises \<^verbatim>\<open>TypeError\<close>, not \<^verbatim>\<open>CircuitOpenException\<close>, and
  leaves the breaker as it is; the same holds of any open breaker without a last failure
  time. The elapsed-time check raises exactly when the last failure time is missing.
\<close>

theorem C9_open_without_failure_raises_TypeError:
  "wrapper a (set_circuit_breaker_state OPEN_STATE
       (CircuitBreaker_init swt cbws tbws fr scd hosct hosd osd ls))
     = (Inl TypeError, set_circuit_breaker_state OPEN_STATE
          (CircuitBreaker_init swt cbws tbws fr scd hosct hosd osd ls))
   \<and> wrapper a (cb\<lparr>last_failure_time := None,
                     storage_state := (storage_state cb)\<lparr>circuit_state := OPEN_STATE\<rparr>\<rparr>)
     = (Inl TypeError, cb\<lparr>last_failure_time := None,
                     storage_state := (storage_state cb)\<lparr>circuit_state := OPEN_STATE\<rparr>\<rparr>)
   \<and> (check_if_open_state_duration_elapsed utcnow cb = Inl TypeError
        \<longleftrightarrow> last_failure_time cb = None)
   \<and> (\<exists>elapsed. check_if_open_state_duration_elapsed utcnow
          (update_last_failure_time t cb) = Inr elapsed)"
  by (simp add: wrapper_def handle_before_call_def CircuitOpenState_before_call_def
      check_if_open_state_duration_elapsed_def set_circuit_breaker_state_def
      CircuitBreaker_init_def CircuitStorage_init_def Let_def update_last_failure_time_def
      split: option.splits)

section \<open>The half-open state\<close>

lemma wrapper_admitted_no_raise:
  assumes "handle_before_call (utc_before a) cb = (None, cb1)"
    and "fst (handle_success (utc_detail a) cb1) = None"
    and "fst (handle_failure (utc_detail a) (utc_failure a) (failure_cause a) cb1) = None"
  shows "wrapper a cb =
     (if attempt_fails cb a
      then (Inl (failure_cause a),
            snd (handle_failure (utc_detail a) (utc_failure a) (failure_cause a) cb1))
      else (work a, snd (handle_success (utc_detail a) cb1)))"
proof -
  have c1: "configuration cb1 = configuration cb"
    using config_before(1)[of "utc_before a" cb] assms(1) by simp
  have chk: "check_if_execution_time_breached (start_time a) (end_time a) cb1
           = check_if_execution_time_breached (start_time a) (end_time a) cb"
    using c1 by (simp add: check_if_execution_time_breached_def configuration_fields)
  obtain cb2 where s: "handle_success (utc_detail a) cb1 = (None, cb2)"
    using assms(2) by (cases "handle_success (utc_detail a) cb1") auto
  note ex = except_clause_no_raise[OF assms(3)]
  show ?thesis
  proof (cases "work a")
    case (Inl e)
    then show ?thesis
      using assms(1) ex by (simp add: wrapper_def attempt_fails_def failure_cause_def)
  next
    case (Inr v)
    show ?thesis
    proof (cases "check_if_execution_time_breached (start_time a) (end_time a) cb")
      case None
      then show ?thesis
        using assms(1) Inr s chk by (simp add: wrapper_def attempt_fails_def)
    next
      case (Some x)
      then have "x = CircuitExecutionTimeBreachedException"
        by (auto simp: check_if_execution_time_breached_def split: option.splits if_splits)
      then show ?thesis
        using assms(1) Inr Some chk ex
        by (simp add: wrapper_def attempt_fails_def failure_cause_def)
    qed
  qed
qed

lemma half_open_before:
  "circuit_state (storage_state cb) = HALF_OPEN_STATE \<Longrightarrow> handle_before_call t cb = (None, cb)"
  by (simp add: handle_before_call_def)

lemma half_open_failure:
  assumes "circuit_state (storage_state cb) = HALF_OPEN_STATE"
  shows "handle_failure t t' e cb = (None, CircuitHalfOpenState_on_failure t' e cb)"
  using assms by (simp add: handle_failure_def)

lemma half_open_wrapper:
  assumes "circuit_state (storage_state cb) = HALF_OPEN_STATE"
  shows "wrapper a cb =
     (if attempt_fails cb a
      then (Inl (failure_cause a), CircuitHalfOpenState_on_failure (utc_failure a) (failure_cause a) cb)
      else (work a, CircuitHalfOpenState_on_success cb))"
  using wrapper_admitted_no_raise[OF half_open_before[OF assms], of a]
  by (simp add: half_open_failure[OF assms] half_open_success[OF assms])

lemma on_success_below:
  assumes "half_open_state_total_calls (storage_state cb) + 1
             < half_open_state_calls_threshold (storage_state cb)"
  shows "CircuitHalfOpenState_on_success cb =
     cb\<lparr>storage_state := (storage_state cb)
          \<lparr>half_open_state_total_calls := half_open_state_total_calls (storage_state cb) + 1\<rparr>\<rparr>"
  using assms
  by (simp add: CircuitHalfOpenState_on_success_def Let_def check_half_open_call_success_def
      increment_half_open_state_success_calls_def)

lemma on_success_reached:
  assumes "half_open_state_total_calls (storage_state cb) + 1
             \<ge> half_open_state_calls_threshold (storage_state cb)"
  shows "circuit_state (storage_state (CircuitHalfOpenState_on_success cb)) = CLOSED_STATE"
    and "total_calls (storage_state (CircuitHalfOpenState_on_success cb)) = []"
    and "half_open_state_total_calls (storage_state (CircuitHalfOpenState_on_success cb)) = 0"
    and "last_failure_time (CircuitHalfOpenState_on_success cb) = last_failure_time cb"
  using assms
  by (simp_all add: CircuitHalfOpenState_on_success_def Let_def check_half_open_call_success_def
      increment_half_open_state_success_calls_def set_circuit_breaker_state_def
      reset_calls_def reset_half_open_state_calls_counter_def)

lemma on_failure_half_open:
  "circuit_state (storage_state (CircuitHalfOpenState_on_failure t e cb)) = OPEN_STATE"
  "last_failure_time (CircuitHalfOpenState_on_failure t e cb) = Some t"
  "half_open_state_total_calls (storage_state (CircuitHalfOpenState_on_failure t e cb)) = 0"
  "total_calls (storage_state (CircuitHalfOpenState_on_failure t e cb))
     = total_calls (storage_state cb)"
  by (simp_all add: CircuitHalfOpenState_on_failure_def set_circuit_breaker_state_def
      update_last_failure_time_def reset_half_open_state_calls_counter_def Let_def)

lemma run_append: "run (as @ bs) cb = run bs (run as cb)"
  by (induction as arbitrary: cb) simp_all

lemma half_open_successes:
  assumes "circuit_state (storage_state cb) = HALF_OPEN_STATE"
    and "\<forall>a \<in> set as. \<not> attempt_fails cb a"
    and "half_open_state_total_calls (storage_state cb) + int (length as)
           < half_open_state_calls_threshold (storage_state cb)"
  shows "run as cb = cb\<lparr>storage_state := (storage_state cb)
          \<lparr>half_open_state_total_calls :=
              half_open_state_total_calls (storage_state cb) + int (length as)\<rparr>\<rparr>"
  using assms
proof (induction as arbitrary: cb)
  case Nil
  then show ?case by simp
next
  case (Cons a as)
  let ?cb1 = "cb\<lparr>storage_state := (storage_state cb)
          \<lparr>half_open_state_total_calls := half_open_state_total_calls (storage_state cb) + 1\<rparr>\<rparr>"
  have below: "half_open_state_total_calls (storage_state cb) + 1
             < half_open_state_calls_threshold (storage_state cb)"
    using Cons.prems(3) by simp
  have w: "snd (wrapper a cb) = ?cb1"
    using Cons.prems(2) by (simp add: half_open_wrapper[OF Cons.prems(1)] on_success_below[OF below])
  have conf: "configuration ?cb1 = configuration cb" by (simp add: configuration_def)
  have 1: "circuit_state (storage_state ?cb1) = HALF_OPEN_STATE"
    using Cons.prems(1) by simp
  have 2: "\<forall>b \<in> set as. \<not> attempt_fails ?cb1 b"
  proof
    fix b assume "b \<in> set as"
    then show "\<not> attempt_fails ?cb1 b"
      using Cons.prems(2) attempt_fails_config[OF conf, of b] by simp
  qed
  have 3: "half_open_state_total_calls (storage_state ?cb1) + int (length as)
           < half_open_state_calls_threshold (storage_state ?cb1)"
    using Cons.prems(3) by simp
  show ?case
    using Cons.IH[OF 1 2 3] w by (simp add: add.assoc)
qed


lemma half_open_closes:
  assumes ho: "circuit_state (storage_state cb) = HALF_OPEN_STATE"
    and c0: "half_open_state_total_calls (storage_state cb) = 0"
    and ok: "\<forall>a \<in> set as. \<not> attempt_fails cb a"
    and len: "int (length as) = half_open_state_calls_threshold (storage_state cb)"
    and T1: "1 \<le> half_open_state_calls_threshold (storage_state cb)"
  shows "circuit_state (storage_state (run as cb)) = CLOSED_STATE"
    and "total_calls (storage_state (run as cb)) = []"
    and "half_open_state_total_calls (storage_state (run as cb)) = 0"
proof -
  have "as \<noteq> []" using len T1 by auto
  then obtain bs b where as: "as = bs @ [b]" by (metis rev_exhaust)
  let ?cb1 = "cb\<lparr>storage_state := (storage_state cb)
          \<lparr>half_open_state_total_calls :=
              half_open_state_total_calls (storage_state cb) + int (length bs)\<rparr>\<rparr>"
  have ok': "\<forall>a \<in> set bs. \<not> attempt_fails cb a" using ok as by simp
  have below: "half_open_state_total_calls (storage_state cb) + int (length bs)
           < half_open_state_calls_threshold (storage_state cb)"
    using len c0 as by simp
  have r: "run bs cb = ?cb1" by (rule half_open_successes[OF ho ok' below])
  have conf: "configuration ?cb1 = configuration cb" by (simp add: configuration_def)
  have nf: "\<not> attempt_fails ?cb1 b"
    using ok as attempt_fails_config[OF conf, of b] by simp
  have ho1: "circuit_state (storage_state ?cb1) = HALF_OPEN_STATE" using ho by simp
  have reached: "half_open_state_total_calls (storage_state ?cb1) + 1
             \<ge> half_open_state_calls_threshold (storage_state ?cb1)"
    using len c0 as by simp
  have w: "run as cb = CircuitHalfOpenState_on_success ?cb1"
    using nf by (simp add: as run_append r half_open_wrapper[OF ho1])
  show "circuit_state (storage_state (run as cb)) = CLOSED_STATE"
    unfolding w by (rule on_success_reached(1)[OF reached])
  show "total_calls (storage_state (run as cb)) = []"
    unfolding w by (rule on_success_reached(2)[OF reached])
  show "half_open_state_total_calls (storage_state (run as cb)) = 0"
    unfolding w by (rule on_success_reached(3)[OF reached])
qed

lemma half_open_fails:
  assumes "circuit_state (storage_state cb) = HALF_OPEN_STATE" and "attempt_fails cb b"
  shows "circuit_state (storage_state (snd (wrapper b cb))) = OPEN_STATE"
    and "last_failure_time (snd (wrapper b cb)) = Some (utc_failure b)"
    and "half_open_state_total_calls (storage_state (snd (wrapper b cb))) = 0"
  using assms(2) by (simp_all add: half_open_wrapper[OF assms(1)] on_failure_half_open)

text \<open>
  C4: from the half-open state with the counter at zero and a threshold of at least 1,
  successful invocations fewer than the threshold only count up; the one that reaches the
  threshold closes the breaker, empties the window and resets the counter. A failing
  invocation, after any number of successes below the threshold, and indeed from any
  half-open breaker, opens the breaker, sets the last failure time to the instant read
  and resets the counter.
\<close>

theorem C4_half_open_trials:
  assumes "circuit_state (storage_state cb) = HALF_OPEN_STATE"
    and "half_open_state_total_calls (storage_state cb) = 0"
    and "1 \<le> half_open_state_calls_threshold (storage_state cb)"
    and "\<forall>a \<in> set as. \<not> attempt_fails cb a"
  shows "(int (length as) < half_open_state_calls_threshold (storage_state cb) \<longrightarrow>
            run as cb = cb\<lparr>storage_state := (storage_state cb)
                           \<lparr>half_open_state_total_calls := int (length as)\<rparr>\<rparr>)
       \<and> (int (length as) = half_open_state_calls_threshold (storage_state cb) \<longrightarrow>
            circuit_state (storage_state (run as cb)) = CLOSED_STATE
          \<and> total_calls (storage_state (run as cb)) = []
          \<and> half_open_state_total_calls (storage_state (run as cb)) = 0)
       \<and> (int (length as) < half_open_state_calls_threshold (storage_state cb)
            \<and> attempt_fails cb b \<longrightarrow>
            circuit_state (storage_state (run (as @ [b]) cb)) = OPEN_STATE
          \<and> last_failure_time (run (as @ [b]) cb) = Some (utc_failure b)
          \<and> half_open_state_total_calls (storage_state (run (as @ [b]) cb)) = 0)
       \<and> (circuit_state (storage_state cb') = HALF_OPEN_STATE \<and> attempt_fails cb' b' \<longrightarrow>
            circuit_state (storage_state (snd (wrapper b' cb'))) = OPEN_STATE
          \<and> last_failure_time (snd (wrapper b' cb')) = Some (utc_failure b')
          \<and> half_open_state_total_calls (storage_state (snd (wrapper b' cb'))) = 0)"
proof (intro conjI impI)
  assume below: "int (length as) < half_open_state_calls_threshold (storage_state cb)"
  show "run as cb = cb\<lparr>storage_state := (storage_state cb)
                           \<lparr>half_open_state_total_calls := int (length as)\<rparr>\<rparr>"
    using half_open_successes[OF assms(1) assms(4)] below assms(2) by simp
next
  assume len: "int (length as) = half_open_state_calls_threshold (storage_state cb)"
  show "circuit_state (storage_state (run as cb)) = CLOSED_STATE"
    by (rule half_open_closes(1)[OF assms(1,2,4) len assms(3)])
  show "total_calls (storage_state (run as cb)) = []"
    by (rule half_open_closes(2)[OF assms(1,2,4) len assms(3)])
  show "half_open_state_total_calls (storage_state (run as cb)) = 0"
    by (rule half_open_closes(3)[OF assms(1,2,4) len assms(3)])
next
  assume "int (length as) < half_open_state_calls_threshold (storage_state cb)
            \<and> attempt_fails cb b"
  then have below: "int (length as) < half_open_state_calls_threshold (storage_state cb)"
    and fl: "attempt_fails cb b" by simp_all
  let ?cb1 = "cb\<lparr>storage_state := (storage_state cb)
                           \<lparr>half_open_state_total_calls := int (length as)\<rparr>\<rparr>"
  have r: "run as cb = ?cb1"
    using half_open_successes[OF assms(1) assms(4)] below assms(2) by simp
  have conf: "configuration ?cb1 = configuration cb" by (simp add: configuration_def)
  have ho1: "circuit_state (storage_state ?cb1) = HALF_OPEN_STATE" using assms(1) by simp
  have fl1: "attempt_fails ?cb1 b" using fl attempt_fails_config[OF conf, of b] by simp
  show "circuit_state (storage_state (run (as @ [b]) cb)) = OPEN_STATE"
    using half_open_fails(1)[OF ho1 fl1] by (simp add: run_append r)
  show "last_failure_time (run (as @ [b]) cb) = Some (utc_failure b)"
    using half_open_fails(2)[OF ho1 fl1] by (simp add: run_append r)
  show "half_open_state_total_calls (storage_state (run (as @ [b]) cb)) = 0"
    using half_open_fails(3)[OF ho1 fl1] by (simp add: run_append r)
next
  assume "circuit_state (storage_state cb') = HALF_OPEN_STATE \<and> attempt_fails cb' b'"
  then have h: "circuit_state (storage_state cb') = HALF_OPEN_STATE" "attempt_fails cb' b'"
    by simp_all
  show "circuit_state (storage_state (snd (wrapper b' cb'))) = OPEN_STATE"
    by (rule half_open_fails(1)[OF h])
  show "last_failure_time (snd (wrapper b' cb')) = Some (utc_failure b')"
    by (rule half_open_fails(2)[OF h])
  show "half_open_state_total_calls (storage_state (snd (wrapper b' cb'))) = 0"
    by (rule half_open_fails(3)[OF h])
qed

text \<open>
  A breaker with a threshold of 3, admitted to the half-open state: two successes, then
  either a third success or a failure.
\<close>

theorem C4_half_open_trials_witness:
  "half_open_state_total_calls (storage_state (run [returning 11, returning 12] probing)) = 2
   \<and> circuit_state (storage_state (run [returning 11, returning 12] probing)) = HALF_OPEN_STATE
   \<and> circuit_state (storage_state (run [returning 11, returning 12, returning 13] probing))
       = CLOSED_STATE
   \<and> total_calls (storage_state (run [returning 11, returning 12, returning 13] probing)) = []
   \<and> half_open_state_total_calls
        (storage_state (run [returning 11, returning 12, returning 13] probing)) = 0
   \<and> circuit_state (storage_state (run [returning 11, returning 12, raising 13] probing))
       = OPEN_STATE
   \<and> last_failure_time (run [returning 11, returning 12, raising 13] probing) = Some 13000000
   \<and> half_open_state_total_calls
        (storage_state (run [returning 11, returning 12, raising 13] probing)) = 0"
proof -
  have h1: "circuit_state (storage_state probing) = HALF_OPEN_STATE" by code_simp
  have h2: "half_open_state_total_calls (storage_state probing) = 0" by code_simp
  have h3: "1 \<le> half_open_state_calls_threshold (storage_state probing)" by code_simp
  have T: "half_open_state_calls_threshold (storage_state probing) = 3" by code_simp
  have h4: "\<forall>a \<in> set [returning 11, returning 12]. \<not> attempt_fails probing a"
    by code_simp
  have h5: "\<forall>a \<in> set [returning 11, returning 12, returning 13]. \<not> attempt_fails probing a"
    by code_simp
  have f: "attempt_fails probing (raising 13)" by code_simp
  have u: "utc_failure (raising 13) = 13000000" by code_simp
  from C4_half_open_trials[OF h1 h2 h3 h4, of "raising 13" probing "raising 13"]
    C4_half_open_trials[OF h1 h2 h3 h5, of "raising 13" probing "raising 13"] T f u h1
  show ?thesis by (simp del: run.simps)
qed

section \<open>The slow-call check\<close>

text \<open>
  C3, as amended: the slow-call check runs only after the function has returned. For an
  admitted invocation (window size at least 1) whose function returned a value and whose
  measured duration reaches the configured slow-call duration, the failure handler of the
  current state runs with \<^verbatim>\<open>CircuitExecutionTimeBreachedException\<close> as the cause and
  the caller receives that exception, not the value. When the function raised, the
  failure handler runs with the function's own exception as the cause and the caller
  receives that exception, whatever the duration was.
\<close>

theorem C3_slow_call_after_return:
  assumes "handle_before_call (utc_before a) cb = (None, cb1)"
    and "1 \<le> count_based_window_size (storage_state cb)"
  shows "(slow_call_duration (storage_state cb) = Some d \<and> end_time a - start_time a \<ge> d
            \<and> work a = Inr v \<longrightarrow>
          wrapper a cb = (Inl CircuitExecutionTimeBreachedException,
            snd (handle_failure (utc_detail a) (utc_failure a)
                   CircuitExecutionTimeBreachedException cb1)))
       \<and> (work a = Inl e \<longrightarrow>
          wrapper a cb = (Inl e, snd (handle_failure (utc_detail a) (utc_failure a) e cb1)))"
  using wrapper_admitted[OF assms, of]
  by (auto simp: attempt_fails_def failure_cause_def check_if_execution_time_breached_def)

text \<open>
  A slow-call duration of one second and an invocation that takes two: returning, and
  raising.
\<close>

theorem C3_slow_call_after_return_witness:
  "wrapper slow_returning slow_breaker =
     (Inl CircuitExecutionTimeBreachedException,
      snd (handle_failure 2000000 2000000 CircuitExecutionTimeBreachedException slow_breaker))
   \<and> notified (snd (wrapper slow_returning slow_breaker))
       = [Failure_cb 7 CircuitExecutionTimeBreachedException]
   \<and> map status (total_calls (storage_state (snd (wrapper slow_returning slow_breaker))))
       = [False]
   \<and> wrapper slow_raising slow_breaker =
     (Inl (WorkException ''boom''),
      snd (handle_failure 2000000 2000000 (WorkException ''boom'') slow_breaker))"
proof -
  have h1: "handle_before_call (utc_before slow_returning) slow_breaker = (None, slow_breaker)"
    by code_simp
  have h1': "handle_before_call (utc_before slow_raising) slow_breaker = (None, slow_breaker)"
    by code_simp
  have h2: "1 \<le> count_based_window_size (storage_state slow_breaker)" by code_simp
  have h3: "slow_call_duration (storage_state slow_breaker) = Some 1
     \<and> end_time slow_returning - start_time slow_returning \<ge> 1
     \<and> work slow_returning = Inr ()" by code_simp
  have h4: "work slow_raising = Inl (WorkException ''boom'')" by code_simp
  have u: "utc_detail slow_returning = 2000000" "utc_failure slow_returning = 2000000"
    "utc_detail slow_raising = 2000000" "utc_failure slow_raising = 2000000" by code_simp+
  have n: "notified (snd (handle_failure 2000000 2000000 CircuitExecutionTimeBreachedException slow_breaker))
       = [Failure_cb 7 CircuitExecutionTimeBreachedException]" by code_simp
  have m: "map status (total_calls (storage_state (snd (handle_failure 2000000 2000000 CircuitExecutionTimeBreachedException slow_breaker))))
       = [False]" by code_simp
  from C3_slow_call_after_return[OF h1 h2, of 1 "()" "WorkException ''boom''"]
    C3_slow_call_after_return[OF h1' h2, of 1 "()" "WorkException ''boom''"] h3 h4 u n m
  show ?thesis by simp
qed

text \<open>
  The invocation that takes two seconds and raises: the caller receives the function's
  exception and the listener is told that cause, not the slow-call exception.
\<close>

theorem C3_counterexample:
  "slow_call_duration (storage_state slow_breaker) = Some 1
   \<and> end_time slow_raising - start_time slow_raising \<ge> 1
   \<and> fst (wrapper slow_raising slow_breaker) = Inl (WorkException ''boom'')
   \<and> fst (wrapper slow_raising slow_breaker) \<noteq> Inl CircuitExecutionTimeBreachedException
   \<and> notified (snd (wrapper slow_raising slow_breaker))
       = [Failure_cb 7 (WorkException ''boom'')]"
  by code_simp

section \<open>Outcome records\<close>

lemma most_recent_snoc:
  assumes "1 \<le> w"
  shows "most_recent w (xs @ [x]) = most_recent (w - 1) xs @ [x]"
proof -
  have k: "Suc (length xs) - nat w = length xs - nat (w - 1)"
    using assms by (simp add: nat_diff_distrib)
  have "Suc (length xs) - nat w \<le> length xs" using assms by simp
  then show ?thesis
    by (simp add: most_recent_def k)
qed

lemma before_call_cases:
  assumes "handle_before_call t cb = (r, cb1)"
  shows "(r = None \<and> cb1 = cb \<and> circuit_state (storage_state cb) \<noteq> OPEN_STATE)
       \<or> (r = None \<and> cb1 = set_circuit_breaker_state HALF_OPEN_STATE cb
            \<and> circuit_state (storage_state cb) = OPEN_STATE)
       \<or> (r \<noteq> None \<and> cb1 = cb \<and> circuit_state (storage_state cb) = OPEN_STATE)"
  using assms
  by (cases "circuit_state (storage_state cb)")
     (auto simp: handle_before_call_def CircuitOpenState_before_call_def
        split: sum.splits if_splits)

lemma before_call_frame:
  assumes "handle_before_call t cb = (r, cb1)"
  shows "total_calls (storage_state cb1) = total_calls (storage_state cb)"
    and "half_open_state_total_calls (storage_state cb1)
           = half_open_state_total_calls (storage_state cb)"
    and "last_failure_time cb1 = last_failure_time cb"
    and "r = None \<Longrightarrow> circuit_state (storage_state cb1) \<noteq> OPEN_STATE"
    and "r \<noteq> None \<Longrightarrow> cb1 = cb"
  using before_call_cases[OF assms]
  by (auto simp: set_circuit_breaker_state_def Let_def)

lemma on_success_total_calls:
  "total_calls (storage_state (CircuitHalfOpenState_on_success cb)) =
     (if half_open_state_total_calls (storage_state cb) + 1
           \<ge> half_open_state_calls_threshold (storage_state cb)
      then [] else total_calls (storage_state cb))"
  by (simp add: CircuitHalfOpenState_on_success_def Let_def check_half_open_call_success_def
      increment_half_open_state_success_calls_def set_circuit_breaker_state_def
      reset_calls_def reset_half_open_state_calls_counter_def)

lemma dispatch_half_open:
  assumes b: "handle_before_call (utc_before a) cb = (None, cb1)"
    and ho: "circuit_state (storage_state cb1) = HALF_OPEN_STATE"
  shows "wrapper a cb =
     (if attempt_fails cb a
      then (Inl (failure_cause a),
            CircuitHalfOpenState_on_failure (utc_failure a) (failure_cause a) cb1)
      else (work a, CircuitHalfOpenState_on_success cb1))"
  using wrapper_admitted_no_raise[OF b, of]
  by (simp add: half_open_failure[OF ho] half_open_success[OF ho])

text \<open>
  C7, as amended: only the handlers of the closed state create records. With a window
  size of at least 1, an invocation made while the breaker is closed appends exactly one
  record, with the status of the invocation, after which the oldest records are evicted.
  An invocation dispatched in the half-open state (made while half-open, or admitted from
  the open state) creates no record: the window stays as it is, or is emptied when the
  invocation closes the breaker. An admitted invocation is dispatched in the closed or
  in the half-open state. A rejected invocation leaves the whole breaker as it is.
\<close>

theorem C7_records_only_while_closed:
  assumes "1 \<le> count_based_window_size (storage_state cb)"
  shows "(circuit_state (storage_state cb) = CLOSED_STATE \<longrightarrow>
            total_calls (storage_state (snd (wrapper a cb))) =
              most_recent (count_based_window_size (storage_state cb) - 1)
                (total_calls (storage_state cb))
              @ [\<lparr>status = \<not> attempt_fails cb a, timestamp = utc_detail a\<rparr>])
       \<and> (handle_before_call (utc_before a) cb = (None, cb1)
            \<and> circuit_state (storage_state cb1) = HALF_OPEN_STATE \<longrightarrow>
            total_calls (storage_state (snd (wrapper a cb))) =
              (if \<not> attempt_fails cb a
                  \<and> half_open_state_total_calls (storage_state cb) + 1
                       \<ge> half_open_state_calls_threshold (storage_state cb)
               then [] else total_calls (storage_state cb)))
       \<and> (handle_before_call (utc_before a) cb = (None, cb1) \<longrightarrow>
            circuit_state (storage_state cb1) = CLOSED_STATE
            \<and> circuit_state (storage_state cb) = CLOSED_STATE
          \<or> circuit_state (storage_state cb1) = HALF_OPEN_STATE)
       \<and> (handle_before_call (utc_before a) cb = (Some e, cb1) \<longrightarrow>
            wrapper a cb = (Inl e, cb))"
proof (intro conjI impI)
  assume cl: "circuit_state (storage_state cb) = CLOSED_STATE"
  show "total_calls (storage_state (snd (wrapper a cb))) =
              most_recent (count_based_window_size (storage_state cb) - 1)
                (total_calls (storage_state cb))
              @ [\<lparr>status = \<not> attempt_fails cb a, timestamp = utc_detail a\<rparr>]"
    using closed_wrapper(1)[OF cl assms, of a] by (simp add: most_recent_snoc[OF assms])
next
  assume "handle_before_call (utc_before a) cb = (None, cb1)
            \<and> circuit_state (storage_state cb1) = HALF_OPEN_STATE"
  then have b: "handle_before_call (utc_before a) cb = (None, cb1)"
    and ho: "circuit_state (storage_state cb1) = HALF_OPEN_STATE" by simp_all
  have c1: "configuration cb1 = configuration cb"
    using config_before(1)[of "utc_before a" cb] b by simp
  then have T: "half_open_state_calls_threshold (storage_state cb1)
             = half_open_state_calls_threshold (storage_state cb)"
    by (simp add: configuration_fields)
  show "total_calls (storage_state (snd (wrapper a cb))) =
              (if \<not> attempt_fails cb a
                  \<and> half_open_state_total_calls (storage_state cb) + 1
                       \<ge> half_open_state_calls_threshold (storage_state cb)
               then [] else total_calls (storage_state cb))"
    by (simp add: dispatch_half_open[OF b ho] on_success_total_calls on_failure_half_open(4)
        before_call_frame(1,2)[OF b] T)
next
  assume b: "handle_before_call (utc_before a) cb = (None, cb1)"
  show "circuit_state (storage_state cb1) = CLOSED_STATE
            \<and> circuit_state (storage_state cb) = CLOSED_STATE
          \<or> circuit_state (storage_state cb1) = HALF_OPEN_STATE"
    using before_call_cases[OF b]
    by (cases "circuit_state (storage_state cb)")
       (auto simp: set_circuit_breaker_state_def Let_def)
next
  assume b: "handle_before_call (utc_before a) cb = (Some e, cb1)"
  show "wrapper a cb = (Inl e, cb)"
    using wrapper_rejected[OF b] before_call_frame(5)[OF b] by simp
qed


text \<open>
  A half-open breaker whose window holds two failures: one invocation that returns and
  one that raises both run the function, and the window is the same afterwards.
\<close>

theorem C7_counterexample:
  "circuit_state (storage_state half_open_breaker) = HALF_OPEN_STATE
   \<and> total_calls (storage_state half_open_breaker)
       = [\<lparr>status = False, timestamp = 0\<rparr>, \<lparr>status = False, timestamp = 1000000\<rparr>]
   \<and> fst (wrapper (returning 12) half_open_breaker) = Inr ()
   \<and> total_calls (storage_state (snd (wrapper (returning 12) half_open_breaker)))
       = [\<lparr>status = False, timestamp = 0\<rparr>, \<lparr>status = False, timestamp = 1000000\<rparr>]
   \<and> fst (wrapper (raising 12) half_open_breaker) = Inl ZeroDivisionError
   \<and> total_calls (storage_state (snd (wrapper (raising 12) half_open_breaker)))
       = [\<lparr>status = False, timestamp = 0\<rparr>, \<lparr>status = False, timestamp = 1000000\<rparr>]"
  by code_simp

text \<open>
  An invocation on the closed breaker of the demonstration, one on a half-open breaker
  and a rejected one.
\<close>

theorem C7_records_only_while_closed_witness:
  "total_calls (storage_state (snd (wrapper (raising 3) demo_breaker)))
       = [\<lparr>status = False, timestamp = 3000000\<rparr>]
   \<and> total_calls (storage_state (snd (wrapper (returning 12) half_open_breaker)))
       = total_calls (storage_state half_open_breaker)
   \<and> wrapper (returning 5) tripped = (Inl CircuitOpenException, tripped)"
proof -
  have w1: "1 \<le> count_based_window_size (storage_state demo_breaker)" by code_simp
  have w2: "1 \<le> count_based_window_size (storage_state half_open_breaker)" by code_simp
  have w3: "1 \<le> count_based_window_size (storage_state tripped)" by code_simp
  have c1: "circuit_state (storage_state demo_breaker) = CLOSED_STATE" by code_simp
  have r1: "most_recent (count_based_window_size (storage_state demo_breaker) - 1)
                (total_calls (storage_state demo_breaker))
              @ [\<lparr>status = \<not> attempt_fails demo_breaker (raising 3),
                   timestamp = utc_detail (raising 3)\<rparr>]
            = [\<lparr>status = False, timestamp = 3000000\<rparr>]" by code_simp
  have c2: "handle_before_call (utc_before (returning 12)) half_open_breaker
              = (None, half_open_breaker)
            \<and> circuit_state (storage_state half_open_breaker) = HALF_OPEN_STATE" by code_simp
  have r2: "\<not> (\<not> attempt_fails half_open_breaker (returning 12)
                  \<and> half_open_state_total_calls (storage_state half_open_breaker) + 1
                       \<ge> half_open_state_calls_threshold (storage_state half_open_breaker))"
    by code_simp
  have c3: "handle_before_call (utc_before (returning 5)) tripped
              = (Some CircuitOpenException, tripped)" by code_simp
  from C7_records_only_while_closed[OF w1, of "raising 3" demo_breaker CircuitOpenException] c1 r1
    C7_records_only_while_closed[OF w2, of "returning 12" half_open_breaker CircuitOpenException]
      c2 r2
    C7_records_only_while_closed[OF w3, of "returning 5" tripped CircuitOpenException] c3
  show ?thesis by simp
qed

section \<open>The last failure time\<close>

lemma lft_success: "last_failure_time (snd (handle_success t cb)) = last_failure_time cb"
  by (simp add: handle_success_def handler_defs method_defs Let_def
      split: CircuitState.splits prod.splits option.splits)

lemma lft_failure:
  "last_failure_time (snd (handle_failure t t' e cb)) = last_failure_time cb
   \<or> last_failure_time (snd (handle_failure t t' e cb)) = Some t'
      \<and> (circuit_state (storage_state cb) = CLOSED_STATE
          \<or> circuit_state (storage_state cb) = HALF_OPEN_STATE)"
  by (simp add: handle_failure_def handler_defs method_defs Let_def
      split: CircuitState.splits prod.splits option.splits sum.splits)

lemma lft_except:
  "last_failure_time (snd (except_clause a e cb)) = last_failure_time (snd (handle_failure (utc_detail a) (utc_failure a) e cb))"
  by (simp add: except_clause_def split: prod.splits option.splits)

lemma success_raises:
  assumes "fst (handle_success t cb) \<noteq> None"
  shows "count_based_window_size (storage_state cb) < 0"
    and "circuit_state (storage_state cb) \<noteq> HALF_OPEN_STATE"
    and "snd (handle_success t cb) = cb\<lparr>storage_state := (storage_state cb)\<lparr>total_calls := []\<rparr>\<rparr>"
proof -
  show ho: "circuit_state (storage_state cb) \<noteq> HALF_OPEN_STATE"
    using assms by (auto simp: half_open_success)
  show w: "count_based_window_size (storage_state cb) < 0"
    using assms base_success[OF ho, of t] by (cases "0 \<le> count_based_window_size (storage_state cb)") auto
  show "snd (handle_success t cb) = cb\<lparr>storage_state := (storage_state cb)\<lparr>total_calls := []\<rparr>\<rparr>"
    using ho by (cases "circuit_state (storage_state cb)")
      (simp_all add: handle_success_def CircuitBreakerState_on_success_def add_call_detail_neg[OF w])
qed

lemma lft_failure_after_raising_success:
  assumes "fst (handle_success t cb) \<noteq> None"
  shows "last_failure_time (snd (handle_failure t1 t2 e (snd (handle_success t cb))))
           = last_failure_time cb"
proof -
  let ?cb2 = "cb\<lparr>storage_state := (storage_state cb)\<lparr>total_calls := []\<rparr>\<rparr>"
  have w: "count_based_window_size (storage_state ?cb2) < 0"
    using success_raises(1)[OF assms] by simp
  have "last_failure_time (snd (handle_failure t1 t2 e ?cb2)) = last_failure_time cb"
    by (cases "circuit_state (storage_state cb)")
       (simp_all add: handle_failure_def CircuitCloseState_on_failure_def add_call_detail_neg[OF w]
          CircuitOpenState_on_failure_def CircuitHalfOpenState_on_failure_def
          success_raises(2)[OF assms])
  then show ?thesis by (simp add: success_raises(3)[OF assms])
qed

lemma lft_wrapper:
  assumes "last_failure_time (snd (wrapper a cb)) \<noteq> last_failure_time cb"
  shows "attempt_fails cb a"
    and "last_failure_time (snd (wrapper a cb)) = Some (utc_failure a)"
    and "\<exists>cb1. handle_before_call (utc_before a) cb = (None, cb1)
            \<and> (circuit_state (storage_state cb1) = CLOSED_STATE
                \<or> circuit_state (storage_state cb1) = HALF_OPEN_STATE)"
proof -
  obtain r cb1 where b: "handle_before_call (utc_before a) cb = (r, cb1)"
    by (cases "handle_before_call (utc_before a) cb")
  have l1: "last_failure_time cb1 = last_failure_time cb" by (rule before_call_frame(3)[OF b])
  have rn: "r = None"
  proof (rule ccontr)
    assume "r \<noteq> None"
    then obtain e where "r = Some e" by auto
    then have "wrapper a cb = (Inl e, cb1)" using b by (simp add: wrapper_def)
    then show False using assms l1 by simp
  qed
  have b': "handle_before_call (utc_before a) cb = (None, cb1)" using b rn by simp
  have chk: "check_if_execution_time_breached (start_time a) (end_time a) cb1
           = check_if_execution_time_breached (start_time a) (end_time a) cb"
    using config_before(1)[of "utc_before a" cb] b
    by (simp add: check_if_execution_time_breached_def configuration_fields)
  have st: "circuit_state (storage_state cb1) = CLOSED_STATE
                \<or> circuit_state (storage_state cb1) = HALF_OPEN_STATE"
    using before_call_frame(4)[OF b rn] by (cases "circuit_state (storage_state cb1)") auto
  note fl = lft_failure[of "utc_detail a" "utc_failure a" _ cb1, unfolded l1]
  have key: "attempt_fails cb a \<and> last_failure_time (snd (wrapper a cb)) = Some (utc_failure a)"
  proof (cases "work a")
    case (Inl e)
    then have "last_failure_time (snd (wrapper a cb))
         = last_failure_time (snd (handle_failure (utc_detail a) (utc_failure a) e cb1))"
      using b' by (simp add: wrapper_def lft_except)
    then show ?thesis using assms fl[of e] Inl by (auto simp: attempt_fails_def)
  next
    case (Inr v)
    show ?thesis
    proof (cases "check_if_execution_time_breached (start_time a) (end_time a) cb")
      case (Some x)
      then have "last_failure_time (snd (wrapper a cb))
         = last_failure_time (snd (handle_failure (utc_detail a) (utc_failure a) x cb1))"
        using b' Inr chk by (simp add: wrapper_def lft_except)
      then show ?thesis using assms fl[of x] Inr Some by (auto simp: attempt_fails_def)
    next
      case None
      obtain r2 cb2 where s: "handle_success (utc_detail a) cb1 = (r2, cb2)"
        by (cases "handle_success (utc_detail a) cb1")
      have "last_failure_time (snd (wrapper a cb)) = last_failure_time cb"
      proof (cases r2)
        case None
        then have "wrapper a cb = (Inr v, cb2)"
          using b' Inr \<open>check_if_execution_time_breached (start_time a) (end_time a) cb = None\<close>
            chk s by (simp add: wrapper_def)
        then show ?thesis
          using lft_success[of "utc_detail a" cb1] s l1 by simp
      next
        case (Some x)
        then have "last_failure_time (snd (wrapper a cb))
           = last_failure_time (snd (handle_failure (utc_detail a) (utc_failure a) x cb2))"
          using b' Inr \<open>check_if_execution_time_breached (start_time a) (end_time a) cb = None\<close>
            chk s by (simp add: wrapper_def lft_except)
        moreover have "fst (handle_success (utc_detail a) cb1) \<noteq> None" using s Some by simp
        ultimately show ?thesis
          using lft_failure_after_raising_success[of "utc_detail a" cb1 "utc_detail a" "utc_failure a" x]
            s l1 by simp
      qed
      then show ?thesis using assms by simp
    qed
  qed
  show "attempt_fails cb a" using key by simp
  show "last_failure_time (snd (wrapper a cb)) = Some (utc_failure a)" using key by simp
  show "\<exists>cb1. handle_before_call (utc_before a) cb = (None, cb1)
            \<and> (circuit_state (storage_state cb1) = CLOSED_STATE
                \<or> circuit_state (storage_state cb1) = HALF_OPEN_STATE)"
    using b' st by blast
qed


lemma closed_fails_lft:
  assumes "circuit_state (storage_state cb) = CLOSED_STATE"
    and "1 \<le> count_based_window_size (storage_state cb)"
    and "attempt_fails cb a"
  shows "last_failure_time (snd (wrapper a cb)) = Some (utc_failure a)"
  using wrapper_admitted[OF closed_before[OF assms(1)] assms(2), of a] assms(3)
    closed_failure(4)[OF assms(1,2)]
  by simp

text \<open>
  C8: an invocation that changes the last failure time is a failing one, dispatched in
  the closed or in the half-open state, and sets it to the instant read by
  \<^verbatim>\<open>update_last_failure_time\<close>; the failure handler changes it in those two states only.
  A failing invocation made while half-open, or while closed with a window size of at
  least 1, does set it. The success handler, the permission check and every other method
  of the breaker leave it as it is.
\<close>

theorem C8_last_failure_time_written_on_failure_only:
  "(last_failure_time (snd (wrapper a cb)) \<noteq> last_failure_time cb \<longrightarrow>
      attempt_fails cb a
      \<and> last_failure_time (snd (wrapper a cb)) = Some (utc_failure a)
      \<and> (\<exists>cb1. handle_before_call (utc_before a) cb = (None, cb1)
            \<and> (circuit_state (storage_state cb1) = CLOSED_STATE
                \<or> circuit_state (storage_state cb1) = HALF_OPEN_STATE)))
   \<and> (last_failure_time (snd (handle_failure t t' e cb)) \<noteq> last_failure_time cb \<longrightarrow>
      last_failure_time (snd (handle_failure t t' e cb)) = Some t'
      \<and> (circuit_state (storage_state cb) = CLOSED_STATE
          \<or> circuit_state (storage_state cb) = HALF_OPEN_STATE))
   \<and> (attempt_fails cb a \<and> circuit_state (storage_state cb) = HALF_OPEN_STATE \<longrightarrow>
      last_failure_time (snd (wrapper a cb)) = Some (utc_failure a))
   \<and> (attempt_fails cb a \<and> circuit_state (storage_state cb) = CLOSED_STATE
        \<and> 1 \<le> count_based_window_size (storage_state cb) \<longrightarrow>
      last_failure_time (snd (wrapper a cb)) = Some (utc_failure a))
   \<and> last_failure_time (snd (handle_success t cb)) = last_failure_time cb
   \<and> last_failure_time (snd (handle_before_call t cb)) = last_failure_time cb
   \<and> last_failure_time (snd (add_call_detail t b cb)) = last_failure_time cb
   \<and> last_failure_time (snd (update_total_calls_details cb)) = last_failure_time cb
   \<and> last_failure_time (set_circuit_breaker_state st cb) = last_failure_time cb
   \<and> last_failure_time (update_circuit_state st cb) = last_failure_time cb
   \<and> last_failure_time (reset_calls cb) = last_failure_time cb
   \<and> last_failure_time (increment_half_open_state_success_calls cb) = last_failure_time cb
   \<and> last_failure_time (reset_half_open_state_calls_counter cb) = last_failure_time cb
   \<and> last_failure_time (circuit_close cb) = last_failure_time cb
   \<and> last_failure_time (circuit_open cb) = last_failure_time cb
   \<and> last_failure_time (circuit_half_open cb) = last_failure_time cb"
proof (intro conjI impI)
  assume ch: "last_failure_time (snd (wrapper a cb)) \<noteq> last_failure_time cb"
  show "attempt_fails cb a" by (rule lft_wrapper(1)[OF ch])
  show "last_failure_time (snd (wrapper a cb)) = Some (utc_failure a)"
    by (rule lft_wrapper(2)[OF ch])
  show "\<exists>cb1. handle_before_call (utc_before a) cb = (None, cb1)
            \<and> (circuit_state (storage_state cb1) = CLOSED_STATE
                \<or> circuit_state (storage_state cb1) = HALF_OPEN_STATE)"
    by (rule lft_wrapper(3)[OF ch])
next
  assume ch: "last_failure_time (snd (handle_failure t t' e cb)) \<noteq> last_failure_time cb"
  show "last_failure_time (snd (handle_failure t t' e cb)) = Some t'"
    using lft_failure[of t t' e cb] ch by blast
  show "circuit_state (storage_state cb) = CLOSED_STATE
          \<or> circuit_state (storage_state cb) = HALF_OPEN_STATE"
    using lft_failure[of t t' e cb] ch by blast
next
  assume "attempt_fails cb a \<and> circuit_state (storage_state cb) = HALF_OPEN_STATE"
  then show "last_failure_time (snd (wrapper a cb)) = Some (utc_failure a)"
    using half_open_fails(2)[of cb a] by simp
next
  assume "attempt_fails cb a \<and> circuit_state (storage_state cb) = CLOSED_STATE
        \<and> 1 \<le> count_based_window_size (storage_state cb)"
  then show "last_failure_time (snd (wrapper a cb)) = Some (utc_failure a)"
    using closed_fails_lft[of cb a] by simp
next
  show "last_failure_time (snd (handle_success t cb)) = last_failure_time cb"
    by (rule lft_success)
  show "last_failure_time (snd (handle_before_call t cb)) = last_failure_time cb"
    by (cases "handle_before_call t cb") (simp add: before_call_frame(3))
  show "last_failure_time (snd (add_call_detail t b cb)) = last_failure_time cb"
    by (simp add: method_defs split: prod.splits)
  show "last_failure_time (snd (update_total_calls_details cb)) = last_failure_time cb"
    by (simp add: method_defs split: prod.splits)
  show "last_failure_time (set_circuit_breaker_state st cb) = last_failure_time cb"
    by (simp add: method_defs Let_def)
  show "last_failure_time (update_circuit_state st cb) = last_failure_time cb"
    by (simp add: method_defs)
  show "last_failure_time (reset_calls cb) = last_failure_time cb"
    by (simp add: method_defs)
  show "last_failure_time (increment_half_open_state_success_calls cb) = last_failure_time cb"
    by (simp add: method_defs)
  show "last_failure_time (reset_half_open_state_calls_counter cb) = last_failure_time cb"
    by (simp add: method_defs)
  show "last_failure_time (circuit_close cb) = last_failure_time cb"
    by (simp add: circuit_close_def)
  show "last_failure_time (circuit_open cb) = last_failure_time cb"
    by (simp add: circuit_open_def)
  show "last_failure_time (circuit_half_open cb) = last_failure_time cb"
    by (simp add: circuit_half_open_def)
qed

text \<open>
  A failure on the fresh breaker of the demonstration, a failure on a half-open breaker
  and a success.
\<close>

theorem C8_last_failure_time_written_on_failure_only_witness:
  "last_failure_time demo_breaker = None
   \<and> last_failure_time (snd (wrapper (raising 5) demo_breaker)) = Some 5000000
   \<and> attempt_fails demo_breaker (raising 5)
   \<and> last_failure_time (snd (wrapper (raising 12) half_open_breaker)) = Some 12000000
   \<and> last_failure_time (snd (wrapper (returning 5) demo_breaker)) = None"
proof -
  have n: "last_failure_time demo_breaker = None" by code_simp
  have ch: "last_failure_time (snd (wrapper (raising 5) demo_breaker))
              \<noteq> last_failure_time demo_breaker" by code_simp
  have u: "utc_failure (raising 5) = 5000000" "utc_failure (raising 12) = 12000000"
    by code_simp+
  have h: "attempt_fails half_open_breaker (raising 12)
      \<and> circuit_state (storage_state half_open_breaker) = HALF_OPEN_STATE" by code_simp
  have s: "last_failure_time (snd (wrapper (returning 5) demo_breaker)) = None" by code_simp
  have a: "attempt_fails demo_breaker (raising 5)
      \<and> last_failure_time (snd (wrapper (raising 5) demo_breaker))
            = Some (utc_failure (raising 5))"
    using C8_last_failure_time_written_on_failure_only
      [of "raising 5" demo_breaker 0 0 CircuitOpenException True CLOSED_STATE] ch
    by blast
  have b: "last_failure_time (snd (wrapper (raising 12) half_open_breaker))
            = Some (utc_failure (raising 12))"
    using C8_last_failure_time_written_on_failure_only
      [of "raising 12" half_open_breaker 0 0 CircuitOpenException True CLOSED_STATE] h
    by blast
  from a b n s show ?thesis
    unfolding u by blast
qed

section \<open>The half-open counter\<close>

text \<open>
  Invocations keep the half-open counter at zero outside the half-open state, so the
  half-open state is entered from the open state with the counter at zero.
\<close>

lemma idle_before: "counter_idle cb \<Longrightarrow> counter_idle (snd (handle_before_call t cb))"
  by (auto simp: counter_idle_def handle_before_call_def handler_defs method_defs Let_def
      split: CircuitState.splits sum.splits)

lemma idle_success: "counter_idle cb \<Longrightarrow> counter_idle (snd (handle_success t cb))"
  by (auto simp: counter_idle_def handle_success_def handler_defs method_defs Let_def
      split: CircuitState.splits prod.splits option.splits)

lemma idle_failure: "counter_idle cb \<Longrightarrow> counter_idle (snd (handle_failure t t' e cb))"
  by (auto simp: counter_idle_def handle_failure_def handler_defs method_defs Let_def
      split: CircuitState.splits prod.splits option.splits sum.splits)

lemma idle_except: "counter_idle cb \<Longrightarrow> counter_idle (snd (except_clause a e cb))"
  using idle_failure[of cb "utc_detail a" "utc_failure a" e]
  by (auto simp: except_clause_def split: prod.splits option.splits)

lemma idle_wrapper: 
  assumes "counter_idle cb" shows "counter_idle (snd (wrapper a cb))"
proof -
  have 1: "counter_idle (snd (handle_before_call (utc_before a) cb))"
    by (rule idle_before[OF assms])
  have 2: "counter_idle (snd (handle_success (utc_detail a)
             (snd (handle_before_call (utc_before a) cb))))"
    by (rule idle_success[OF 1])
  show ?thesis
    using 1 2 idle_except[OF 1, of a] idle_except[OF 2, of a]
    by (auto simp: wrapper_def split: prod.splits option.splits sum.splits)
qed

lemma idle_run: "counter_idle cb \<Longrightarrow> counter_idle (run as cb)"
  by (induction as arbitrary: cb) (simp_all add: idle_wrapper)

lemma idle_init: "counter_idle (CircuitBreaker_init swt cbws tbws fr scd hosct hosd osd ls)"
  by (simp add: counter_idle_def CircuitBreaker_init_def CircuitStorage_init_def)

lemma half_open_entered_with_zero:
  assumes "counter_idle cb" and "circuit_state (storage_state cb) = OPEN_STATE"
    and "handle_before_call t cb = (None, cb1)"
  shows "circuit_state (storage_state cb1) = HALF_OPEN_STATE"
    and "half_open_state_total_calls (storage_state cb1) = 0"
  using assms before_call_cases[OF assms(3)]
  by (auto simp: counter_idle_def set_circuit_breaker_state_def Let_def)

end
